theory Spec2Isabelle
  imports Main "HOL-Library.Multiset" "HOL-Library.Char_ord" "HOL-Library.List_Lexorder" "HOL-Library.Product_Lexorder"
    "HOL-Library.Code_Target_Nat"
begin

section \<open>Data model of the metadata store\<close>

text \<open>
  The driver (\<^verbatim>\<open>src/server/pfs/db/driver.go\<close>) keeps four tables in a document store:
  \<^verbatim>\<open>Repos\<close>, \<^verbatim>\<open>Commits\<close>, \<^verbatim>\<open>Diffs\<close> and \<^verbatim>\<open>Clocks\<close>. The document types come from the
  package \<^verbatim>\<open>persist\<close>; the records below carry the fields the driver reads and writes.
  A nullable timestamp pointer is an \<open>option\<close>. Numbers held by the store (sizes, clocks)
  are natural numbers: the store adds them in its own number type, taken to be exact.
  Where the driver decodes a number that a query has computed into a \<^verbatim>\<open>uint64\<close> field, the
  conversion \<open>decodeUint64\<close> is applied, and where the Go code itself computes on
  \<^verbatim>\<open>uint64\<close> or converts from \<^verbatim>\<open>int\<close>, the reduction modulo \<open>2 ^ 64\<close> is written out.
\<close>

type_synonym Timestamp = nat

datatype FileType = FileType_NONE | FileType_FILE | FileType_DIR

record Clock =
  clock_Branch :: string
  clock_Clock :: nat

type_synonym BranchClock = "Clock list"

record Repo =
  repo_Name :: string
  repo_Created :: "Timestamp option"
  repo_Size :: nat

record ClockID =
  cid_ID :: string
  cid_Repo :: string
  cid_Branch :: string
  cid_Clock :: nat

record Commit =
  commit_ID :: string
  commit_Repo :: string
  commit_Started :: "Timestamp option"
  commit_Finished :: "Timestamp option"
  commit_Cancelled :: bool
  commit_BranchClocks :: "BranchClock list"
  commit_Provenance :: "string list"
  commit_Size :: nat

record BlockRef =
  ref_Hash :: string
  ref_Lower :: nat
  ref_Upper :: nat

record Diff =
  diff_ID :: string
  diff_Repo :: string
  diff_Delete :: bool
  diff_Path :: string
  diff_BlockRefs :: "BlockRef list"
  diff_FileType :: FileType
  diff_Size :: nat
  diff_CommitID :: string
  diff_BranchClocks :: "BranchClock list"
  diff_Modified :: "Timestamp option"

text \<open>
  A table is the list of its documents. \<^verbatim>\<open>Get\<close> by primary key returns the first document
  with that key, \<^verbatim>\<open>Update\<close> rewrites the documents with that key, \<^verbatim>\<open>Delete\<close> removes them.
  The order of a table stands for the order in which the store returns documents when a
  query does not fix one.
\<close>

record db =
  repoTable :: "Repo list"
  commitTable :: "Commit list"
  diffTable :: "Diff list"
  clockTable :: "ClockID list"

text \<open>The request types of package \<^verbatim>\<open>pfs\<close>: a commit reference and a file reference.\<close>

record PfsCommit =
  pc_Repo :: string
  pc_ID :: string

record PfsFile =
  pf_Commit :: PfsCommit
  pf_Path :: string

datatype CommitType = COMMIT_TYPE_READ | COMMIT_TYPE_WRITE

record CommitInfo =
  ci_Commit :: PfsCommit
  ci_Branch :: string
  ci_Started :: "Timestamp option"
  ci_Finished :: "Timestamp option"
  ci_Cancelled :: bool
  ci_CommitType :: CommitType
  ci_SizeBytes :: nat

text \<open>
  Every error return and every panic of the modelled functions is a constructor.
  \<open>ErrEmptyResult\<close> is the store's "empty result" of \<^verbatim>\<open>cursor.One\<close>; \<open>ErrNotFoundInIndex\<close>
  is the error \<^verbatim>\<open>getMessageByIndex\<close> builds; \<open>ErrMessage\<close> carries the text of an
  \<^verbatim>\<open>errors.New\<close> or \<^verbatim>\<open>fmt.Errorf\<close>; \<open>PanicIndexOutOfRange\<close> is Go's run-time panic on
  a slice index out of range; \<open>ErrQuery\<close> is a run-time error of a store query.
  Failures of the connection to the store are not modelled.
\<close>

datatype error =
    ErrEmptyResult
  | ErrNotFoundInIndex
  | ErrFileNotFound
  | ErrConflictFileType
  | ErrIsDirectory
  | ErrMessage string
  | ErrInterval
  | ErrQuery
  | ErrBlockStore
  | PanicIndexOutOfRange

section \<open>Commit references\<close>

text \<open>\<^verbatim>\<open>strings.Split(s, "/")\<close>: one part more than there are separators.\<close>

fun splitSlash :: "string \<Rightarrow> string list" where
  "splitSlash [] = [[]]"
| "splitSlash (c # cs) =
     (if c = CHR ''/'' then [] # splitSlash cs
      else (case splitSlash cs of
              [] \<Rightarrow> [[c]]
            | p # ps \<Rightarrow> (c # p) # ps))"

definition isDigit :: "char \<Rightarrow> bool" where
  "isDigit c = (48 \<le> (of_char c :: nat) \<and> (of_char c :: nat) \<le> 57)"

fun digitsValue :: "nat \<Rightarrow> string \<Rightarrow> nat option" where
  "digitsValue acc [] = Some acc"
| "digitsValue acc (c # cs) =
     (if isDigit c then digitsValue (acc * 10 + ((of_char c :: nat) - 48)) cs else None)"

text \<open>
  \<^verbatim>\<open>strconv.Atoi\<close>: an optional sign, then at least one decimal digit and nothing else;
  a value outside the 64-bit \<^verbatim>\<open>int\<close>, from \<open>- 2 ^ 63 = - 9223372036854775808\<close> to
  \<open>2 ^ 63 - 1\<close>, is an error.
\<close>

definition Atoi :: "string \<Rightarrow> int option" where
  "Atoi s =
     (case s of
        [] \<Rightarrow> None
      | c # cs \<Rightarrow>
          if c = CHR ''-'' then
            (if cs = [] then None
             else (case digitsValue 0 cs of
                     None \<Rightarrow> None
                   | Some n \<Rightarrow> if n \<le> 9223372036854775808 then Some (- int n) else None))
          else if c = CHR ''+'' then
            (if cs = [] then None
             else (case digitsValue 0 cs of
                     None \<Rightarrow> None
                   | Some n \<Rightarrow> if n < 9223372036854775808 then Some (int n) else None))
          else
            (case digitsValue 0 s of
               None \<Rightarrow> None
             | Some n \<Rightarrow> if n < 9223372036854775808 then Some (int n) else None))"

text \<open>
  \<^verbatim>\<open>parseClock\<close> takes \<^verbatim>\<open>"branch/clock"\<close>; \<open>None\<close> is its error return. The clock is
  \<^verbatim>\<open>uint64(c)\<close> of the parsed \<^verbatim>\<open>int\<close>, that is \<open>c mod 2 ^ 64\<close> with
  \<open>2 ^ 64 = 18446744073709551616\<close>.
\<close>

definition parseClock :: "string \<Rightarrow> Clock option" where
  "parseClock clock =
     (case splitSlash clock of
        [b, n] \<Rightarrow>
          (case Atoi n of
             None \<Rightarrow> None
           | Some c \<Rightarrow> Some \<lparr>clock_Branch = b, clock_Clock = nat (c mod 18446744073709551616)\<rparr>)
      | _ \<Rightarrow> None)"

text \<open>
  Modelled from the spec: the index \<^verbatim>\<open>CommitBranchIndex\<close> is declared outside the driver.
  The spec gives its key as \<open>(repo, branch, n)\<close>, used for head-of-branch and parent lookup;
  a commit has one key for the last clock of each of its branch clocks.
\<close>

definition commitBranchKeys :: "Commit \<Rightarrow> (string \<times> string \<times> nat) list" where
  "commitBranchKeys c =
     map (\<lambda>bc. (commit_Repo c, clock_Branch (last bc), clock_Clock (last bc)))
       (filter (\<lambda>bc. bc \<noteq> []) (commit_BranchClocks c))"

text \<open>
  \<^verbatim>\<open>getMessageByIndex\<close> on the commit table: the first commit that has the key, or the
  "not found in index" error.
\<close>

definition getCommitByIndex :: "db \<Rightarrow> string \<times> string \<times> nat \<Rightarrow> error + Commit" where
  "getCommitByIndex s k =
     (case filter (\<lambda>c. k \<in> set (commitBranchKeys c)) (commitTable s) of
        [] \<Rightarrow> Inl ErrNotFoundInIndex
      | c # _ \<Rightarrow> Inr c)"

text \<open>
  \<^verbatim>\<open>getHeadOfBranch\<close>: the commits with a key \<open>(repo, branch, n)\<close>, in descending order of
  \<open>n\<close>; \<^verbatim>\<open>cursor.One\<close> takes the first, or fails with the empty-result error.
\<close>

fun maxByClock :: "(nat \<times> Commit) list \<Rightarrow> (nat \<times> Commit) option" where
  "maxByClock [] = None"
| "maxByClock (x # xs) =
     (case maxByClock xs of
        None \<Rightarrow> Some x
      | Some y \<Rightarrow> if fst x < fst y then Some y else Some x)"

definition branchEntries :: "db \<Rightarrow> string \<Rightarrow> string \<Rightarrow> (nat \<times> Commit) list" where
  "branchEntries s repo branch =
     concat (map (\<lambda>c. map (\<lambda>k. (snd (snd k), c))
                        (filter (\<lambda>k. fst k = repo \<and> fst (snd k) = branch) (commitBranchKeys c)))
                 (commitTable s))"

definition getHeadOfBranch :: "db \<Rightarrow> string \<Rightarrow> string \<Rightarrow> error + Commit" where
  "getHeadOfBranch s repo branch =
     (case maxByClock (branchEntries s repo branch) of
        None \<Rightarrow> Inl ErrEmptyResult
      | Some e \<Rightarrow> Inr (snd e))"

definition getCommit :: "db \<Rightarrow> string \<Rightarrow> Commit option" where
  "getCommit s k = find (\<lambda>c. commit_ID c = k) (commitTable s)"

text \<open>
  \<^verbatim>\<open>getCommitByAmbiguousID\<close>: a reference that parses as \<^verbatim>\<open>branch/clock\<close> is looked up in
  the index; otherwise it is tried as a branch name (the head of the branch), and when no
  commit is on such a branch, as a primary key of the commit table.
\<close>

definition getCommitByAmbiguousID :: "db \<Rightarrow> string \<Rightarrow> string \<Rightarrow> error + Commit" where
  "getCommitByAmbiguousID s repo commitID =
     (case parseClock commitID of
        None \<Rightarrow>
          (case getHeadOfBranch s repo commitID of
             Inr c \<Rightarrow> Inr c
           | Inl e \<Rightarrow>
               (case getCommit s commitID of
                  None \<Rightarrow> Inl ErrEmptyResult
                | Some c \<Rightarrow> Inr c))
      | Some alias \<Rightarrow>
          getCommitByIndex s (repo, clock_Branch alias, clock_Clock alias))"

section \<open>Repositories\<close>

text \<open>\<^verbatim>\<open>DeleteRepo\<close> runs one query: delete the document of the repo table with this name.\<close>

definition DeleteRepo :: "db \<Rightarrow> string \<Rightarrow> error + db" where
  "DeleteRepo s name = Inr (s\<lparr>repoTable := filter (\<lambda>r. repo_Name r \<noteq> name) (repoTable s)\<rparr>)"

section \<open>Commits\<close>

text \<open>
  A number that a query returns is decoded into the \<^verbatim>\<open>uint64\<close> field of the Go struct
  that \<^verbatim>\<open>cursor.One\<close> fills. A number below \<open>2 ^ 64 = 18446744073709551616\<close> is the
  field's value. For a number out of that range Go leaves the conversion to the
  implementation; on amd64 it yields \<open>2 ^ 63 = 9223372036854775808\<close>.
\<close>

definition uint64Modulus :: nat where
  "uint64Modulus = 18446744073709551616"

definition decodeUint64 :: "nat \<Rightarrow> nat" where
  "decodeUint64 n = (if n < uint64Modulus then n else 9223372036854775808)"

text \<open>
  \<^verbatim>\<open>computeCommitSize\<close>: the diffs whose \<^verbatim>\<open>CommitID\<close> is the given key, reduced by adding their
  \<^verbatim>\<open>Size\<close> fields; the default for no diff is the empty diff, of size 0. The sum the store
  returns is decoded into the \<^verbatim>\<open>uint64\<close> size of a \<^verbatim>\<open>persist.Diff\<close>, which the function
  returns.
\<close>

definition computeCommitSize :: "db \<Rightarrow> string \<Rightarrow> nat" where
  "computeCommitSize s commitID =
     decodeUint64
       (sum_list (map diff_Size (filter (\<lambda>d. diff_CommitID d = commitID) (diffTable s))))"

text \<open>
  \<^verbatim>\<open>getIDOfParentCommit\<close> reads the first branch clock of the commit and its last clock:
  clock \<open>n > 0\<close> has its parent at \<open>n - 1\<close> on the same branch; clock 0 has it at the clock
  before the last, and none (the empty id) when there is no such clock.
\<close>

definition getIDOfParentCommit :: "db \<Rightarrow> string \<Rightarrow> string \<Rightarrow> error + string" where
  "getIDOfParentCommit s repo commitID =
     (case getCommitByAmbiguousID s repo commitID of
        Inl e \<Rightarrow> Inl e
      | Inr commit \<Rightarrow>
          (case commit_BranchClocks commit of
             [] \<Rightarrow> Inl PanicIndexOutOfRange
           | onlyBranch # _ \<Rightarrow>
               if onlyBranch = [] then Inl PanicIndexOutOfRange
               else
                 let numClocks = length onlyBranch;
                     clock = onlyBranch ! (numClocks - 1)
                 in if clock_Clock clock = 0 \<and> numClocks < 2 then Inr []
                    else
                      let clock' = (if clock_Clock clock = 0 then onlyBranch ! (numClocks - 2)
                                    else clock\<lparr>clock_Clock := clock_Clock clock - 1\<rparr>)
                      in (case getCommitByIndex s
                                 (commit_Repo commit, clock_Branch clock', clock_Clock clock') of
                            Inl e \<Rightarrow> Inl e
                          | Inr parentCommit \<Rightarrow> Inr (commit_ID parentCommit))))"

text \<open>
  \<^verbatim>\<open>FinishCommit\<close>. The wait on the parent's change feed ends at the first value of the
  parent document with a non-null \<^verbatim>\<open>Finished\<close>; with the store as it is, that is the
  document itself when it is finished, and otherwise the call does not return: the result
  \<open>None\<close>. The two updates that follow address documents by primary key and change nothing
  when there is no such document.
\<close>

definition updateRepoSize :: "db \<Rightarrow> string \<Rightarrow> nat \<Rightarrow> db" where
  "updateRepoSize s name n =
     s\<lparr>repoTable := map (\<lambda>r. if repo_Name r = name then r\<lparr>repo_Size := repo_Size r + n\<rparr> else r)
                       (repoTable s)\<rparr>"

definition updateCommit :: "db \<Rightarrow> Commit \<Rightarrow> db" where
  "updateCommit s rawCommit =
     s\<lparr>commitTable := map (\<lambda>c. if commit_ID c = commit_ID rawCommit then rawCommit else c)
                         (commitTable s)\<rparr>"

definition FinishCommit ::
  "db \<Rightarrow> PfsCommit \<Rightarrow> Timestamp option \<Rightarrow> bool \<Rightarrow> (error + db) option" where
  "FinishCommit s commit finished cancel =
     (case getCommitByAmbiguousID s (pc_Repo commit) (pc_ID commit) of
        Inl e \<Rightarrow> Some (Inl e)
      | Inr rawCommit0 \<Rightarrow>
          let rawCommit = rawCommit0\<lparr>commit_Size := computeCommitSize s (commit_ID rawCommit0)\<rparr>
          in (case getIDOfParentCommit s (pc_Repo commit) (pc_ID commit) of
                Inl e \<Rightarrow> Some (Inl e)
              | Inr parentID \<Rightarrow>
                  (case (if parentID \<noteq> [] then
                           (case getCommit s parentID of
                              None \<Rightarrow> None
                            | Some p \<Rightarrow>
                                if commit_Finished p \<noteq> None then Some (commit_Cancelled p)
                                else None)
                         else Some False) of
                     None \<Rightarrow> None
                   | Some parentCancelled \<Rightarrow>
                       let s1 = updateRepoSize s (commit_Repo rawCommit) (commit_Size rawCommit);
                           rawCommit' = rawCommit\<lparr>commit_Finished := finished,
                                                  commit_Cancelled := (parentCancelled \<or> cancel)\<rparr>
                       in Some (Inr (updateCommit s1 rawCommit')))))"

text \<open>
  Modelled from the spec: \<^verbatim>\<open>libclock.GetBranchNameFromBranchClock\<close> is outside the driver;
  the spec's \<open>branch_name(bc)\<close> returns the last clock's branch. On a branch clock with no
  clock the Go code would index out of range.
\<close>

definition GetBranchNameFromBranchClock :: "BranchClock \<Rightarrow> error + string" where
  "GetBranchNameFromBranchClock bc =
     (if bc = [] then Inl PanicIndexOutOfRange else Inr (clock_Branch (last bc)))"

definition rawCommitToCommitInfo :: "Commit \<Rightarrow> error + CommitInfo" where
  "rawCommitToCommitInfo rawCommit =
     (case (case commit_BranchClocks rawCommit of
              [] \<Rightarrow> Inr []
            | bc # _ \<Rightarrow> GetBranchNameFromBranchClock bc) of
        Inl e \<Rightarrow> Inl e
      | Inr branch \<Rightarrow>
          Inr \<lparr>ci_Commit = \<lparr>pc_Repo = commit_Repo rawCommit, pc_ID = commit_ID rawCommit\<rparr>,
               ci_Branch = branch,
               ci_Started = commit_Started rawCommit,
               ci_Finished = commit_Finished rawCommit,
               ci_Cancelled = commit_Cancelled rawCommit,
               ci_CommitType = (if commit_Finished rawCommit = None then COMMIT_TYPE_WRITE
                                else COMMIT_TYPE_READ),
               ci_SizeBytes = commit_Size rawCommit\<rparr>)"

text \<open>
  \<^verbatim>\<open>InspectCommit\<close>: resolve the reference, convert the record, compute the size of an
  unfinished commit from its diffs, and then overwrite the id of the answer with the
  reference of the request.
\<close>

definition InspectCommit :: "db \<Rightarrow> PfsCommit \<Rightarrow> error + CommitInfo" where
  "InspectCommit s commit =
     (case getCommitByAmbiguousID s (pc_Repo commit) (pc_ID commit) of
        Inl e \<Rightarrow> Inl e
      | Inr rawCommit \<Rightarrow>
          (case rawCommitToCommitInfo rawCommit of
             Inl e \<Rightarrow> Inl e
           | Inr commitInfo \<Rightarrow>
               let commitInfo1 =
                     (if ci_Finished commitInfo = None
                      then commitInfo\<lparr>ci_SizeBytes := computeCommitSize s (commit_ID rawCommit)\<rparr>
                      else commitInfo)
               in Inr (commitInfo1\<lparr>ci_Commit := (ci_Commit commitInfo1)\<lparr>pc_ID := pc_ID commit\<rparr>\<rparr>)))"

text \<open>
  \<^verbatim>\<open>DeleteCommit\<close> returns a new error at once; \<^verbatim>\<open>Merge\<close> returns an empty list of commits
  and a nil error at once. Neither touches the store: the store they are given comes
  back as it was.
\<close>

definition DeleteCommit :: "db \<Rightarrow> PfsCommit \<Rightarrow> (error + unit) \<times> db" where
  "DeleteCommit s commit = (Inl (ErrMessage ''DeleteCommit is not supported''), s)"

definition Merge :: "db \<Rightarrow> PfsCommit list \<Rightarrow> PfsCommit \<Rightarrow> (error + PfsCommit list) \<times> db" where
  "Merge s from parent = (Inr [], s)"

section \<open>Example stores\<close>

text \<open>
  A repo \<^verbatim>\<open>r\<close> of size 10 with two commits on branch \<^verbatim>\<open>master\<close>: \<^verbatim>\<open>c0\<close> at clock 0, finished
  and cancelled, with one diff of size 4; \<^verbatim>\<open>c1\<close> at clock 1, unfinished, with two diffs of
  sizes 5 and 7.
\<close>

definition getRepo :: "db \<Rightarrow> string \<Rightarrow> Repo option" where
  "getRepo s name = find (\<lambda>r. repo_Name r = name) (repoTable s)"

definition master :: "nat \<Rightarrow> BranchClock" where
  "master n = [\<lparr>clock_Branch = ''master'', clock_Clock = n\<rparr>]"

definition commitA :: Commit where
  "commitA = \<lparr>commit_ID = ''c0'', commit_Repo = ''r'', commit_Started = Some 1,
     commit_Finished = Some 2, commit_Cancelled = True, commit_BranchClocks = [master 0],
     commit_Provenance = [], commit_Size = 4\<rparr>"

definition commitB :: Commit where
  "commitB = \<lparr>commit_ID = ''c1'', commit_Repo = ''r'', commit_Started = Some 3,
     commit_Finished = None, commit_Cancelled = False, commit_BranchClocks = [master 1],
     commit_Provenance = [], commit_Size = 0\<rparr>"

definition fileDiff :: "string \<Rightarrow> nat \<Rightarrow> string \<Rightarrow> string \<Rightarrow> nat \<Rightarrow> Diff" where
  "fileDiff c n p h sz =
     \<lparr>diff_ID = c @ '':'' @ p, diff_Repo = ''r'', diff_Delete = False, diff_Path = p,
      diff_BlockRefs = [\<lparr>ref_Hash = h, ref_Lower = 0, ref_Upper = sz\<rparr>],
      diff_FileType = FileType_FILE, diff_Size = sz, diff_CommitID = c,
      diff_BranchClocks = [master n], diff_Modified = Some 1\<rparr>"

definition repoR :: Repo where
  "repoR = \<lparr>repo_Name = ''r'', repo_Created = Some 0, repo_Size = 10\<rparr>"

definition store0 :: db where
  "store0 = \<lparr>repoTable = [repoR], commitTable = [commitA, commitB],
     diffTable = [fileDiff ''c0'' 0 ''/a'' ''h0'' 4, fileDiff ''c1'' 1 ''/a'' ''h1'' 5,
                  fileDiff ''c1'' 1 ''/b'' ''h2'' 7],
     clockTable = []\<rparr>"

section \<open>The read-side fold\<close>

text \<open>
  Modelled from the spec: \<^verbatim>\<open>persist.BranchClockToArray\<close> is outside the driver. It turns a
  branch clock into the array of its \<open>(branch, n)\<close> pairs, the form in which clocks are
  index keys and sort keys. The store orders arrays lexicographically, strings by their
  bytes and numbers by value: the order of \<open>(string \<times> nat) list\<close>.
\<close>

definition BranchClockToArray :: "BranchClock \<Rightarrow> (string \<times> nat) list" where
  "BranchClockToArray bc = map (\<lambda>c. (clock_Branch c, clock_Clock c)) bc"

text \<open>
  Modelled from the spec: \<^verbatim>\<open>libclock.GetClockIntervals\<close> is outside the driver. The spec's
  \<open>intervals(from_bc, to_bc)\<close> decomposes the ancestry walk from \<open>from_bc\<close> (exclusive; or
  the root if null) to \<open>to_bc\<close> (inclusive) into per-branch linear runs: from the root to
  \<open>[(master,3),(dev,2)]\<close> it yields \<open>(master,0)..(master,3)\<close> and \<open>(dev,0)..(dev,2)\<close>. An
  interval is the pair of its first and last branch clock. A \<open>from_bc\<close> that is not on the
  walk to \<open>to_bc\<close> is an error.
\<close>

fun rootIntervals :: "BranchClock \<Rightarrow> BranchClock \<Rightarrow> (BranchClock \<times> BranchClock) list" where
  "rootIntervals pre [] = []"
| "rootIntervals pre (c # cs) =
     (pre @ [c\<lparr>clock_Clock := 0\<rparr>], pre @ [c]) # rootIntervals (pre @ [c]) cs"

definition GetClockIntervals ::
  "BranchClock option \<Rightarrow> BranchClock \<Rightarrow> error + (BranchClock \<times> BranchClock) list" where
  "GetClockIntervals fromClock toClock =
     (case fromClock of
        None \<Rightarrow> Inr (rootIntervals [] toClock)
      | Some f \<Rightarrow>
          if f = [] \<or> length toClock < length f then Inl ErrInterval
          else
            let j = length f - 1; fl = last f; tj = toClock ! j
            in if butlast f = take j toClock \<and> clock_Branch fl = clock_Branch tj \<and>
                  clock_Clock fl \<le> clock_Clock tj
               then Inr ((take j toClock @ [tj\<lparr>clock_Clock := clock_Clock fl + 1\<rparr>],
                          take (j + 1) toClock)
                         # rootIntervals (take (j + 1) toClock) (drop (j + 1) toClock))
               else Inl ErrInterval)"

text \<open>
  \<^verbatim>\<open>intervalToClocks\<close>: every interval becomes the clocks from its first to its last, the
  last component running over the range of numbers between the two; with \<open>reverse\<close> the
  intervals are taken last to first and each range from its upper end down. Reading the
  last component of an empty array is a run-time error of the query.
\<close>

definition intervalClocks ::
  "bool \<Rightarrow> BranchClock \<times> BranchClock \<Rightarrow> error + (string \<times> nat) list list" where
  "intervalClocks reverse iv =
     (let firstClock = BranchClockToArray (fst iv); secondClock = BranchClockToArray (snd iv)
      in if firstClock = [] \<or> secondClock = [] then Inl ErrQuery
         else
           let ns = [snd (last firstClock) ..< snd (last secondClock) + 1]
           in Inr (map (\<lambda>x. butlast firstClock @ [(fst (last firstClock), x)])
                     (if reverse then rev ns else ns)))"

fun concatResults :: "(error + 'a list) list \<Rightarrow> error + 'a list" where
  "concatResults [] = Inr []"
| "concatResults (r # rs) =
     (case r of
        Inl e \<Rightarrow> Inl e
      | Inr xs \<Rightarrow> (case concatResults rs of Inl e \<Rightarrow> Inl e | Inr ys \<Rightarrow> Inr (xs @ ys)))"

definition intervalToClocks ::
  "BranchClock option \<Rightarrow> BranchClock \<Rightarrow> bool \<Rightarrow> error + (string \<times> nat) list list" where
  "intervalToClocks fromClock toClock reverse =
     (case GetClockIntervals fromClock toClock of
        Inl e \<Rightarrow> Inl e
      | Inr intervals \<Rightarrow>
          concatResults (map (intervalClocks reverse)
                           (if reverse then rev intervals else intervals)))"

text \<open>\<^verbatim>\<open>getClockByAmbiguousID\<close>: the first branch clock of the resolved commit.\<close>

definition getClockByAmbiguousID :: "db \<Rightarrow> string \<Rightarrow> string \<Rightarrow> error + BranchClock" where
  "getClockByAmbiguousID s repo commitID =
     (case getCommitByAmbiguousID s repo commitID of
        Inl e \<Rightarrow> Inl e
      | Inr commit \<Rightarrow>
          (case commit_BranchClocks commit of
             [] \<Rightarrow> Inl PanicIndexOutOfRange
           | bc # _ \<Rightarrow> Inr bc))"

text \<open>
  \<^verbatim>\<open>getIntervalQueryFromCommitRange\<close>: the clocks of the commit range, always asked for in
  reverse.
\<close>

definition getIntervalQueryFromCommitRange ::
  "db \<Rightarrow> PfsCommit option \<Rightarrow> PfsCommit \<Rightarrow> error + (string \<times> nat) list list" where
  "getIntervalQueryFromCommitRange s fromCommit toCommit =
     (case (case fromCommit of
              None \<Rightarrow> Inr None
            | Some f \<Rightarrow>
                (case getClockByAmbiguousID s (pc_Repo f) (pc_ID f) of
                   Inl e \<Rightarrow> Inl e
                 | Inr c \<Rightarrow> Inr (Some c))) of
        Inl e \<Rightarrow> Inl e
      | Inr fromClock \<Rightarrow>
          (case getClockByAmbiguousID s (pc_Repo toCommit) (pc_ID toCommit) of
             Inl e \<Rightarrow> Inl e
           | Inr toClock \<Rightarrow> intervalToClocks fromClock toClock True))"

text \<open>
  Modelled from the spec: the index \<^verbatim>\<open>DiffPathIndex\<close> is declared outside the driver. The
  spec gives its key as \<open>(repo, path, clock)\<close> and says that a diff carries the branch
  clocks of its commit for indexing: a diff has one key for each of its branch clocks.
\<close>

definition diffPathKeys :: "Diff \<Rightarrow> (string \<times> string \<times> (string \<times> nat) list) list" where
  "diffPathKeys d =
     map (\<lambda>bc. (diff_Repo d, diff_Path d, BranchClockToArray bc)) (diff_BranchClocks d)"

text \<open>
  The join of the clock sequence with the diff table on that index: for each clock in
  turn, the diffs that have the key of repo, path and clock.
\<close>

definition joinDiffPath :: "db \<Rightarrow> string \<Rightarrow> string \<Rightarrow> (string \<times> nat) list list \<Rightarrow> Diff list" where
  "joinDiffPath s repo path clocks =
     concat (map (\<lambda>k. filter (\<lambda>d. (repo, path, k) \<in> set (diffPathKeys d)) (diffTable s)) clocks)"

text \<open>
  \<^verbatim>\<open>foldDiffs\<close>. The stream of diffs is gathered into one list ordered by the array of the
  first branch clock of each diff (every joined diff has one, since its index key is built
  from it), and the list is folded from the empty diff \<^verbatim>\<open>persist.Diff{}\<close>, whose file type
  is the enum's zero value \<^verbatim>\<open>NONE\<close>. A diff with \<^verbatim>\<open>Delete\<close> set overwrites path, commit id,
  block refs, file type, size and modification time of the accumulator with its own; any
  other diff overwrites path, commit id, file type and modification time, appends its block
  refs and adds its size. Diffs with equal clock arrays, which the store may return in any
  order, keep the order of the join here.
\<close>

definition emptyDiff :: Diff where
  "emptyDiff = \<lparr>diff_ID = [], diff_Repo = [], diff_Delete = False, diff_Path = [],
     diff_BlockRefs = [], diff_FileType = FileType_NONE, diff_Size = 0, diff_CommitID = [],
     diff_BranchClocks = [], diff_Modified = None\<rparr>"

definition diffOrderKey :: "Diff \<Rightarrow> (string \<times> nat) list" where
  "diffOrderKey d = (case diff_BranchClocks d of [] \<Rightarrow> [] | bc # _ \<Rightarrow> BranchClockToArray bc)"

definition foldStep :: "Diff \<Rightarrow> Diff \<Rightarrow> Diff" where
  "foldStep acc diff =
     (if diff_Delete diff then
        acc\<lparr>diff_Path := diff_Path diff,
            diff_CommitID := diff_CommitID diff,
            diff_BlockRefs := diff_BlockRefs diff,
            diff_FileType := diff_FileType diff,
            diff_Size := diff_Size diff,
            diff_Modified := diff_Modified diff\<rparr>
      else
        acc\<lparr>diff_Path := diff_Path diff,
            diff_CommitID := diff_CommitID diff,
            diff_BlockRefs := diff_BlockRefs acc @ diff_BlockRefs diff,
            diff_Size := diff_Size acc + diff_Size diff,
            diff_FileType := diff_FileType diff,
            diff_Modified := diff_Modified diff\<rparr>)"

definition foldDiffs :: "Diff list \<Rightarrow> Diff" where
  "foldDiffs diffs = foldl foldStep emptyDiff (sort_key diffOrderKey diffs)"

text \<open>
  The shard predicates \<^verbatim>\<open>pfsserver.FileInShard\<close> and \<^verbatim>\<open>pfsserver.BlockInShard\<close> belong to the
  sharding layer; the functions that use them take them as a parameter. A shard filter is
  a nullable pointer, the block of \<^verbatim>\<open>BlockInShard\<close> is given by its hash, or is nil.
\<close>

record 'sh sharding =
  FileInShard :: "'sh option \<Rightarrow> PfsFile \<Rightarrow> bool"
  BlockInShard :: "'sh option \<Rightarrow> PfsFile \<Rightarrow> string option \<Rightarrow> bool"

definition filterBlockRefs ::
  "'sh sharding \<Rightarrow> 'sh option \<Rightarrow> PfsFile \<Rightarrow> BlockRef list \<Rightarrow> BlockRef list" where
  "filterBlockRefs sh filterShard file blockRefs =
     filter (\<lambda>blockRef. BlockInShard sh filterShard file (Some (ref_Hash blockRef))) blockRefs"

text \<open>
  \<^verbatim>\<open>inspectFile\<close>: the fold of the diffs of the path over the clocks of the commit range,
  decoded by \<^verbatim>\<open>cursor.One\<close> into a \<^verbatim>\<open>persist.Diff\<close> (the size the fold has summed becomes
  a \<^verbatim>\<open>uint64\<close>), then the shard filter on its block refs. The fold always yields a
  document, so the empty-result branch of the source is never taken.
\<close>

definition inspectFile ::
  "'sh sharding \<Rightarrow> db \<Rightarrow> PfsFile \<Rightarrow> 'sh option \<Rightarrow> PfsCommit option \<Rightarrow> error + Diff" where
  "inspectFile sh s file filterShard from =
     (if \<not> FileInShard sh filterShard file then Inl ErrFileNotFound
      else
        (case getIntervalQueryFromCommitRange s from (pf_Commit file) of
           Inl e \<Rightarrow> Inl e
         | Inr query \<Rightarrow>
             let folded = foldDiffs (joinDiffPath s (pc_Repo (pf_Commit file)) (pf_Path file)
                                       query);
                 diff = folded\<lparr>diff_Size := decodeUint64 (diff_Size folded)\<rparr>
             in if diff_BlockRefs diff = [] then
                  (if \<not> BlockInShard sh filterShard file None then Inl ErrFileNotFound
                   else Inr diff)
                else
                  let refs = filterBlockRefs sh filterShard file (diff_BlockRefs diff)
                  in if refs = [] then Inl ErrFileNotFound
                     else Inr (diff\<lparr>diff_BlockRefs := refs\<rparr>)))"

text \<open>
  \<^verbatim>\<open>fixPath\<close> prepends a slash when the path does not start with one and removes one
  trailing slash from a path longer than one character.
\<close>

definition fixPath :: "string \<Rightarrow> string" where
  "fixPath p =
     (let p1 = (case p of
                  [] \<Rightarrow> ''/''
                | c # _ \<Rightarrow> if c \<noteq> CHR ''/'' then CHR ''/'' # p else p)
      in if 1 < length p1 \<and> last p1 = CHR ''/'' then butlast p1 else p1)"

datatype PfsFileType = FILE_TYPE_NONE | FILE_TYPE_REGULAR | FILE_TYPE_DIR

record FileInfo =
  fi_File :: PfsFile
  fi_FileType :: PfsFileType
  fi_Modified :: "Timestamp option"
  fi_CommitModified :: "PfsCommit option"
  fi_SizeBytes :: nat

text \<open>
  \<^verbatim>\<open>InspectFile\<close>: the answer is built from the folded diff by its file type. The list of
  children that the source adds for a directory comes from \<^verbatim>\<open>getChildren\<close>, through an index
  declared outside the driver; it is left out of \<open>FileInfo\<close>. That query fails only where
  the query of \<^verbatim>\<open>inspectFile\<close> for the same commit range has failed before.
\<close>

definition InspectFile ::
  "'sh sharding \<Rightarrow> db \<Rightarrow> PfsFile \<Rightarrow> 'sh option \<Rightarrow> PfsCommit option \<Rightarrow> error + FileInfo" where
  "InspectFile sh s file0 filterShard from =
     (let file = file0\<lparr>pf_Path := fixPath (pf_Path file0)\<rparr>
      in case inspectFile sh s file filterShard from of
           Inl e \<Rightarrow> Inl e
         | Inr diff \<Rightarrow>
             (case diff_FileType diff of
                FileType_FILE \<Rightarrow>
                  Inr \<lparr>fi_File = file, fi_FileType = FILE_TYPE_REGULAR,
                       fi_Modified = diff_Modified diff,
                       fi_CommitModified = Some \<lparr>pc_Repo = pc_Repo (pf_Commit file),
                                                 pc_ID = diff_CommitID diff\<rparr>,
                       fi_SizeBytes = diff_Size diff\<rparr>
              | FileType_DIR \<Rightarrow>
                  Inr \<lparr>fi_File = file, fi_FileType = FILE_TYPE_DIR,
                       fi_Modified = diff_Modified diff,
                       fi_CommitModified = None,
                       fi_SizeBytes = 0\<rparr>
              | FileType_NONE \<Rightarrow> Inl ErrFileNotFound))"

text \<open>
  \<^verbatim>\<open>GetFile\<close>: the folded diff of a directory is refused; for any other diff the reader
  \<^verbatim>\<open>newFileReader\<close> builds over its block refs is returned. The offset and the size are
  \<^verbatim>\<open>int64\<close> values, kept as they are given.
\<close>

record fileReader =
  fr_offset :: int
  fr_size :: int
  fr_sizeRead :: int
  fr_blockRefs :: "BlockRef list"
  fr_file :: PfsFile

definition newFileReader :: "BlockRef list \<Rightarrow> PfsFile \<Rightarrow> int \<Rightarrow> int \<Rightarrow> fileReader" where
  "newFileReader blockRefs file offset sz =
     \<lparr>fr_offset = offset, fr_size = sz, fr_sizeRead = 0, fr_blockRefs = blockRefs,
      fr_file = file\<rparr>"

definition GetFile ::
  "'sh sharding \<Rightarrow> db \<Rightarrow> PfsFile \<Rightarrow> 'sh option \<Rightarrow> int \<Rightarrow> int \<Rightarrow> PfsCommit option
     \<Rightarrow> error + fileReader" where
  "GetFile sh s file0 filterShard offset sz from =
     (let file = file0\<lparr>pf_Path := fixPath (pf_Path file0)\<rparr>
      in case inspectFile sh s file filterShard from of
           Inl e \<Rightarrow> Inl e
         | Inr diff \<Rightarrow>
             if diff_FileType diff = FileType_DIR then Inl ErrIsDirectory
             else Inr (newFileReader (diff_BlockRefs diff) file offset sz))"

text \<open>
  No sharding: the predicates accept every file and every block. The store \<open>store1\<close> adds
  to \<open>store0\<close> a third commit \<^verbatim>\<open>c2\<close> at clock 2 of \<^verbatim>\<open>master\<close> that deletes \<^verbatim>\<open>/a\<close>.
\<close>

definition noSharding :: "unit sharding" where
  "noSharding = \<lparr>FileInShard = (\<lambda>_ _. True), BlockInShard = (\<lambda>_ _ _. True)\<rparr>"

definition commitC :: Commit where
  "commitC = \<lparr>commit_ID = ''c2'', commit_Repo = ''r'', commit_Started = Some 5,
     commit_Finished = None, commit_Cancelled = False, commit_BranchClocks = [master 2],
     commit_Provenance = [], commit_Size = 0\<rparr>"

definition deleteDiff :: "string \<Rightarrow> nat \<Rightarrow> string \<Rightarrow> Diff" where
  "deleteDiff c n p =
     \<lparr>diff_ID = c @ '':'' @ p, diff_Repo = ''r'', diff_Delete = True, diff_Path = p,
      diff_BlockRefs = [], diff_FileType = FileType_NONE, diff_Size = 0, diff_CommitID = c,
      diff_BranchClocks = [master n], diff_Modified = None\<rparr>"

definition store1 :: db where
  "store1 = store0\<lparr>commitTable := [commitA, commitB, commitC],
                    diffTable := deleteDiff ''c2'' 2 ''/a'' # diffTable store0\<rparr>"

definition fileAt :: "string \<Rightarrow> string \<Rightarrow> PfsFile" where
  "fileAt c p = \<lparr>pf_Commit = \<lparr>pc_Repo = ''r'', pc_ID = c\<rparr>, pf_Path = p\<rparr>"

section \<open>PutFile\<close>

text \<open>
  \<^verbatim>\<open>getPrefixes\<close>: the path is split at its separators and the parts before the last are
  run through in order; a non-empty part extends the prefix by a separator and the part,
  and the prefix is recorded; an empty part is skipped.
\<close>

fun prefixesLoop :: "string \<Rightarrow> string list \<Rightarrow> string list" where
  "prefixesLoop prefix [] = []"
| "prefixesLoop prefix (part # parts) =
     (if part \<noteq> [] then (prefix @ ''/'' @ part) # prefixesLoop (prefix @ ''/'' @ part) parts
      else prefixesLoop prefix parts)"

definition getPrefixes :: "string \<Rightarrow> string list" where
  "getPrefixes path = prefixesLoop [] (butlast (splitSlash path))"

definition getDiffID :: "string \<Rightarrow> string \<Rightarrow> string" where
  "getDiffID commitID path = commitID @ '':'' @ path"

text \<open>
  Modelled from the spec: the method \<^verbatim>\<open>Size\<close> of \<^verbatim>\<open>persist.BlockRef\<close> is outside the driver.
  A block ref is \<open>(hash, lower, upper)\<close> with the two byte offsets of a slice of a block, so
  its size is \<open>upper - lower\<close>, computed on \<^verbatim>\<open>uint64\<close>: modulo \<open>2 ^ 64\<close>.
\<close>

definition BlockRefSize :: "BlockRef \<Rightarrow> nat" where
  "BlockRefSize r =
     (ref_Upper r mod uint64Modulus + uint64Modulus - ref_Lower r mod uint64Modulus)
       mod uint64Modulus"

text \<open>
  \<^verbatim>\<open>checkFileType\<close> inspects the path at the commit, with no shard filter and no \<open>from\<close>
  commit: "file not found" is no conflict, any other error is returned, and a folded file
  type that is neither the given type nor \<^verbatim>\<open>NONE\<close> is the conflict error.
\<close>

definition checkFileType ::
  "'sh sharding \<Rightarrow> db \<Rightarrow> string \<Rightarrow> string \<Rightarrow> string \<Rightarrow> FileType \<Rightarrow> error option" where
  "checkFileType sh s repo commit path typ =
     (case inspectFile sh s \<lparr>pf_Commit = \<lparr>pc_Repo = repo, pc_ID = commit\<rparr>, pf_Path = path\<rparr>
             None None of
        Inl e \<Rightarrow> if e = ErrFileNotFound then None else Some e
      | Inr diff \<Rightarrow>
          if diff_FileType diff \<noteq> typ \<and> diff_FileType diff \<noteq> FileType_NONE
          then Some ErrConflictFileType else None)"

fun checkFileTypes :: "'sh sharding \<Rightarrow> db \<Rightarrow> Diff list \<Rightarrow> error option" where
  "checkFileTypes sh s [] = None"
| "checkFileTypes sh s (diff # diffs) =
     (case checkFileType sh s (diff_Repo diff) (diff_CommitID diff) (diff_Path diff)
             (diff_FileType diff) of
        Some e \<Rightarrow> Some e
      | None \<Rightarrow> checkFileTypes sh s diffs)"

text \<open>
  The conflict function of the insert: an old document whose file type is neither \<^verbatim>\<open>NONE\<close>
  nor the new document's is an error; otherwise the old document is kept with the new
  block refs appended, the new size added, and file type and modification time of the
  new document.
\<close>

definition putFileConflict :: "Diff \<Rightarrow> Diff \<Rightarrow> error + Diff" where
  "putFileConflict oldDoc newDoc =
     (if diff_FileType oldDoc \<noteq> FileType_NONE \<and> diff_FileType oldDoc \<noteq> diff_FileType newDoc
      then Inl ErrConflictFileType
      else Inr (oldDoc\<lparr>diff_BlockRefs := diff_BlockRefs oldDoc @ diff_BlockRefs newDoc,
                       diff_Size := diff_Size oldDoc + diff_Size newDoc,
                       diff_FileType := diff_FileType newDoc,
                       diff_Modified := diff_Modified newDoc\<rparr>))"

definition getDiff :: "Diff list \<Rightarrow> string \<Rightarrow> Diff option" where
  "getDiff table k = find (\<lambda>d. diff_ID d = k) table"

text \<open>
  The insert of a batch of documents is not atomic: every document is inserted on its
  own, a new key is added, an old key goes through the conflict function, and a document
  whose conflict function fails is left out while the others are still written. The write
  reports the first error when there is one.
\<close>

definition insertDiff :: "Diff list \<Rightarrow> Diff \<Rightarrow> error option \<times> Diff list" where
  "insertDiff table newDoc =
     (case getDiff table (diff_ID newDoc) of
        None \<Rightarrow> (None, table @ [newDoc])
      | Some oldDoc \<Rightarrow>
          (case putFileConflict oldDoc newDoc of
             Inl e \<Rightarrow> (Some e, table)
           | Inr merged \<Rightarrow>
               (None, map (\<lambda>d. if diff_ID d = diff_ID newDoc then merged else d) table)))"

fun insertDiffs :: "Diff list \<Rightarrow> Diff list \<Rightarrow> error option \<times> Diff list" where
  "insertDiffs table [] = (None, table)"
| "insertDiffs table (d # ds) =
     (case insertDiff table d of
        (e, table1) \<Rightarrow>
          (case insertDiffs table1 ds of
             (e', table2) \<Rightarrow> ((case e of Some x \<Rightarrow> Some x | None \<Rightarrow> e'), table2)))"

text \<open>
  The diffs \<^verbatim>\<open>PutFile\<close> plans: a \<^verbatim>\<open>DIR\<close> diff for every prefix, then the \<^verbatim>\<open>FILE\<close> diff of the
  path with the block refs and their total size, summed on \<^verbatim>\<open>uint64\<close>. Each diff takes its
  own time stamp: \<open>now i\<close> is the clock reading of the \<open>i\<close>-th diff built.
\<close>

definition dirDiff :: "Commit \<Rightarrow> Timestamp \<Rightarrow> string \<Rightarrow> Diff" where
  "dirDiff commit t prefix =
     \<lparr>diff_ID = getDiffID (commit_ID commit) prefix, diff_Repo = commit_Repo commit,
      diff_Delete = False, diff_Path = prefix, diff_BlockRefs = [],
      diff_FileType = FileType_DIR, diff_Size = 0, diff_CommitID = commit_ID commit,
      diff_BranchClocks = commit_BranchClocks commit, diff_Modified = Some t\<rparr>"

definition leafDiff :: "Commit \<Rightarrow> Timestamp \<Rightarrow> string \<Rightarrow> BlockRef list \<Rightarrow> Diff" where
  "leafDiff commit t path refs =
     \<lparr>diff_ID = getDiffID (commit_ID commit) path, diff_Repo = commit_Repo commit,
      diff_Delete = False, diff_Path = path, diff_BlockRefs = refs,
      diff_FileType = FileType_FILE,
      diff_Size = foldl (\<lambda>sz ref. (sz + BlockRefSize ref) mod uint64Modulus) 0 refs,
      diff_CommitID = commit_ID commit,
      diff_BranchClocks = commit_BranchClocks commit, diff_Modified = Some t\<rparr>"

definition plannedDiffs :: "Commit \<Rightarrow> string \<Rightarrow> BlockRef list \<Rightarrow> (nat \<Rightarrow> Timestamp) \<Rightarrow> Diff list" where
  "plannedDiffs commit path refs now =
     (let prefixes = getPrefixes path
      in map (\<lambda>i. dirDiff commit (now i) (prefixes ! i)) [0 ..< length prefixes]
         @ [leafDiff commit (now (length prefixes)) path refs])"

text \<open>
  \<^verbatim>\<open>PutFile\<close>. The block store is outside the driver: \<open>putBlock\<close> is what \<^verbatim>\<open>PutBlock\<close> returns
  for the reader and the delimiter, an error or the block refs. The result is the error,
  if any, and the store after the call.
\<close>

definition PutFile ::
  "'sh sharding \<Rightarrow> db \<Rightarrow> PfsFile \<Rightarrow> error + BlockRef list \<Rightarrow> (nat \<Rightarrow> Timestamp)
     \<Rightarrow> error option \<times> db" where
  "PutFile sh s file putBlock now =
     (let path = fixPath (pf_Path file)
      in case getCommitByAmbiguousID s (pc_Repo (pf_Commit file)) (pc_ID (pf_Commit file)) of
           Inl e \<Rightarrow> (Some e, s)
         | Inr commit \<Rightarrow>
             (case putBlock of
                Inl e \<Rightarrow> (Some e, s)
              | Inr refs \<Rightarrow>
                  let diffs = plannedDiffs commit path refs now
                  in (case checkFileTypes sh s diffs of
                        Some e \<Rightarrow> (Some e, s)
                      | None \<Rightarrow>
                          (case insertDiffs (diffTable s) diffs of
                             (e, table) \<Rightarrow> (e, s\<lparr>diffTable := table\<rparr>)))))"

text \<open>
  Modelled from the spec: the strict ancestor paths of a path. The spec asks that every
  strict ancestor path of a leaf be covered by a directory diff and says that internal
  separators are not collapsed and empty components are permitted. For a path that starts
  with the separator these are its leading components, each behind a separator, for every
  number of components from one up to one less than all; the root is not among them.
\<close>

definition ancestorPaths :: "string \<Rightarrow> string list" where
  "ancestorPaths path =
     (let parts = tl (splitSlash path)
      in map (\<lambda>k. concat (map (\<lambda>part. ''/'' @ part) (take k parts))) [1 ..< length parts])"

text \<open>
  The invariant of the diffs of one commit: every \<^verbatim>\<open>FILE\<close> diff of the commit has, for each
  of the given ancestor paths of its path, a \<^verbatim>\<open>DIR\<close> diff of the same commit at that path.
\<close>

definition dirAt :: "Diff list \<Rightarrow> string \<Rightarrow> string \<Rightarrow> bool" where
  "dirAt table cid p =
     (\<exists>d \<in> set table. diff_CommitID d = cid \<and> diff_Path d = p \<and>
                        diff_FileType d = FileType_DIR)"

definition dirsCovered :: "(string \<Rightarrow> string list) \<Rightarrow> Diff list \<Rightarrow> string \<Rightarrow> bool" where
  "dirsCovered ancestors table cid =
     (\<forall>d \<in> set table. diff_CommitID d = cid \<and> diff_FileType d = FileType_FILE \<longrightarrow>
        (\<forall>p \<in> set (ancestors (diff_Path d)). dirAt table cid p))"

text \<open>
  A table is keyed when its primary keys are distinct, the id of every diff is built from
  its commit id and its path, and no commit id holds the colon that separates the two,
  which makes the id determine both: the form of the ids that \<^verbatim>\<open>PutFile\<close> and
  \<^verbatim>\<open>DeleteFile\<close> write.
\<close>

definition keyed :: "Diff list \<Rightarrow> bool" where
  "keyed table =
     (distinct (map diff_ID table) \<and>
      (\<forall>d \<in> set table. diff_ID d = getDiffID (diff_CommitID d) (diff_Path d) \<and>
                         CHR '':'' \<notin> set (diff_CommitID d)))"

text \<open>
  One block ref of three bytes, and the clock readings 10, 11, 12, ... for the diffs
  \<^verbatim>\<open>PutFile\<close> builds.
\<close>

definition refs9 :: "BlockRef list" where
  "refs9 = [\<lparr>ref_Hash = ''h9'', ref_Lower = 2, ref_Upper = 5\<rparr>]"

definition nowFrom10 :: "nat \<Rightarrow> Timestamp" where
  "nowFrom10 i = 10 + i"

section \<open>The parent of a commit, in the spec's words\<close>

text \<open>
  Modelled from the spec, to be compared with \<^verbatim>\<open>getIDOfParentCommit\<close>: "A commit's parent
  on branch \<open>b\<close> is the commit whose last clock on \<open>b\<close> is \<open>n - 1\<close> if \<open>n > 0\<close>, else the
  commit one branch-clock level up with its last-but-one clock unchanged." \<open>parentClock\<close>
  gives the clock of the parent of a commit with the given branch clock, and none for the
  first commit of a branch that was not branched off. A commit is on a clock \<open>(b, n)\<close> of a
  repo when it is of that repo and \<open>(b, n)\<close> is the last clock of one of its branch clocks.
\<close>

definition parentClock :: "BranchClock \<Rightarrow> (string \<times> nat) option" where
  "parentClock bc =
     (if bc = [] then None
      else if 0 < clock_Clock (last bc)
           then Some (clock_Branch (last bc), clock_Clock (last bc) - 1)
      else if butlast bc = [] then None
      else Some (clock_Branch (last (butlast bc)), clock_Clock (last (butlast bc))))"

definition onClock :: "string \<Rightarrow> string \<Rightarrow> nat \<Rightarrow> Commit \<Rightarrow> bool" where
  "onClock repo b n c =
     (commit_Repo c = repo \<and>
      (\<exists>bc \<in> set (commit_BranchClocks c).
         bc \<noteq> [] \<and> clock_Branch (last bc) = b \<and> clock_Clock (last bc) = n))"

text \<open>
  Two more stores. \<open>store2\<close> adds to \<open>store0\<close> the unfinished commit \<^verbatim>\<open>c3\<close>, the first of
  branch \<^verbatim>\<open>dev\<close>, branched off \<^verbatim>\<open>master/0\<close>. \<open>storeBig\<close> gives commit \<^verbatim>\<open>c1\<close> two diffs of
  size \<open>2 ^ 63\<close> each.
\<close>

definition commitD :: Commit where
  "commitD = \<lparr>commit_ID = ''c3'', commit_Repo = ''r'', commit_Started = Some 6,
     commit_Finished = None, commit_Cancelled = False,
     commit_BranchClocks = [[\<lparr>clock_Branch = ''master'', clock_Clock = 0\<rparr>,
                             \<lparr>clock_Branch = ''dev'', clock_Clock = 0\<rparr>]],
     commit_Provenance = [], commit_Size = 0\<rparr>"

definition store2 :: db where
  "store2 = store0\<lparr>commitTable := [commitA, commitB, commitD]\<rparr>"


section \<open>Resolution returns stored commits\<close>

lemma maxByClock_mem: "maxByClock xs = Some e \<Longrightarrow> e \<in> set xs"
  by (induction xs arbitrary: e) (auto split: option.splits if_splits)

lemma branchEntries_mem:
  "e \<in> set (branchEntries s repo branch) \<Longrightarrow> snd e \<in> set (commitTable s)"
  by (auto simp: branchEntries_def)

lemma getHeadOfBranch_mem: "getHeadOfBranch s repo branch = Inr c \<Longrightarrow> c \<in> set (commitTable s)"
  by (auto simp: getHeadOfBranch_def split: option.splits dest!: maxByClock_mem branchEntries_mem)

lemma getCommitByIndex_mem: "getCommitByIndex s k = Inr c \<Longrightarrow> c \<in> set (commitTable s)"
proof -
  assume a: "getCommitByIndex s k = Inr c"
  then obtain cs where "filter (\<lambda>c. k \<in> set (commitBranchKeys c)) (commitTable s) = c # cs"
    by (auto simp: getCommitByIndex_def split: list.splits)
  then have "c \<in> set (filter (\<lambda>c. k \<in> set (commitBranchKeys c)) (commitTable s))"
    by simp
  then show ?thesis by simp
qed

lemma getCommit_mem: "getCommit s k = Some c \<Longrightarrow> c \<in> set (commitTable s) \<and> commit_ID c = k"
  by (auto simp: getCommit_def find_Some_iff)

lemma getCommitByAmbiguousID_mem:
  assumes "getCommitByAmbiguousID s repo ref = Inr c"
  shows "c \<in> set (commitTable s)"
proof (cases "parseClock ref")
  case None
  show ?thesis
  proof (cases "getHeadOfBranch s repo ref")
    case (Inr h)
    with assms None show ?thesis
      by (simp add: getCommitByAmbiguousID_def getHeadOfBranch_mem)
  next
    case (Inl e)
    with assms None show ?thesis
      by (cases "getCommit s ref") (simp_all add: getCommitByAmbiguousID_def getCommit_mem)
  qed
next
  case (Some al)
  with assms show ?thesis
    by (simp add: getCommitByAmbiguousID_def getCommitByIndex_mem)
qed

section \<open>Effect of the two updates of FinishCommit\<close>

lemma find_map_update:
  "c \<in> set xs \<Longrightarrow> commit_ID c = commit_ID r \<Longrightarrow>
   find (\<lambda>c. commit_ID c = commit_ID r)
     (map (\<lambda>c. if commit_ID c = commit_ID r then r else c) xs) = Some r"
  by (induction xs) auto

lemma getCommit_updateCommit:
  "c \<in> set (commitTable s) \<Longrightarrow> commit_ID c = commit_ID r \<Longrightarrow>
   getCommit (updateCommit s r) (commit_ID r) = Some r"
  by (simp add: getCommit_def updateCommit_def find_map_update)

lemma find_map_repo:
  "find (\<lambda>r. repo_Name r = name)
     (map (\<lambda>r. if repo_Name r = name then r\<lparr>repo_Size := repo_Size r + n\<rparr> else r) xs)
   = map_option (\<lambda>r. r\<lparr>repo_Size := repo_Size r + n\<rparr>) (find (\<lambda>r. repo_Name r = name) xs)"
  by (induction xs) auto

lemma getRepo_updateRepoSize:
  "getRepo (updateRepoSize s name n) name
   = map_option (\<lambda>r. r\<lparr>repo_Size := repo_Size r + n\<rparr>) (getRepo s name)"
  by (simp add: getRepo_def updateRepoSize_def find_map_repo)

lemma getRepo_updateCommit: "getRepo (updateCommit s r) name = getRepo s name"
  by (simp add: getRepo_def updateCommit_def)

lemma commitTable_updateRepoSize: "commitTable (updateRepoSize s name n) = commitTable s"
  by (simp add: updateRepoSize_def)

lemma FinishCommit_success:
  assumes "FinishCommit s commit finished cancel = Some (Inr s')"
  shows "\<exists>raw pid pc.
      getCommitByAmbiguousID s (pc_Repo commit) (pc_ID commit) = Inr raw \<and>
      getIDOfParentCommit s (pc_Repo commit) (pc_ID commit) = Inr pid \<and>
      (if pid = [] then pc = False
       else (\<exists>p. getCommit s pid = Some p \<and> commit_Finished p \<noteq> None \<and>
                 pc = commit_Cancelled p)) \<and>
      s' = updateCommit
             (updateRepoSize s (commit_Repo raw) (computeCommitSize s (commit_ID raw)))
             (raw\<lparr>commit_Size := computeCommitSize s (commit_ID raw),
                  commit_Finished := finished, commit_Cancelled := (pc \<or> cancel)\<rparr>)"
proof -
  obtain raw where r: "getCommitByAmbiguousID s (pc_Repo commit) (pc_ID commit) = Inr raw"
    using assms by (cases "getCommitByAmbiguousID s (pc_Repo commit) (pc_ID commit)")
      (simp_all add: FinishCommit_def)
  obtain pid where p: "getIDOfParentCommit s (pc_Repo commit) (pc_ID commit) = Inr pid"
    using assms r by (cases "getIDOfParentCommit s (pc_Repo commit) (pc_ID commit)")
      (simp_all add: FinishCommit_def Let_def)
  show ?thesis
  proof (cases "pid = []")
    case True
    with assms r p show ?thesis
      by (auto simp add: FinishCommit_def Let_def)
  next
    case False
    with assms r p obtain par where g: "getCommit s pid = Some par"
      by (cases "getCommit s pid") (simp_all add: FinishCommit_def Let_def)
    with assms r p False have f: "commit_Finished par \<noteq> None"
      by (cases "commit_Finished par") (simp_all add: FinishCommit_def Let_def)
    with assms r p False g show ?thesis
      by (auto simp add: FinishCommit_def Let_def)
  qed
qed

lemma FinishCommit_stored:
  assumes "getCommitByAmbiguousID s repo ref = Inr raw"
      and "s' = updateCommit (updateRepoSize s (commit_Repo raw) n) raw'"
      and "commit_ID raw' = commit_ID raw"
  shows "getCommit s' (commit_ID raw) = Some raw'"
    and "getRepo s' (commit_Repo raw)
         = map_option (\<lambda>r. r\<lparr>repo_Size := repo_Size r + n\<rparr>) (getRepo s (commit_Repo raw))"
proof -
  have m: "raw \<in> set (commitTable (updateRepoSize s (commit_Repo raw) n))"
    using assms(1) by (simp add: commitTable_updateRepoSize getCommitByAmbiguousID_mem)
  show "getCommit s' (commit_ID raw) = Some raw'"
    using getCommit_updateCommit [OF m, of raw'] assms(2,3) by simp
  show "getRepo s' (commit_Repo raw)
         = map_option (\<lambda>r. r\<lparr>repo_Size := repo_Size r + n\<rparr>) (getRepo s (commit_Repo raw))"
    using assms(2) by (simp add: getRepo_updateCommit getRepo_updateRepoSize)
qed


lemma store0_resolve_c1: "getCommitByAmbiguousID store0 ''r'' ''c1'' = Inr commitB"
  by code_simp




lemma store0_finish_c0:
  "FinishCommit store0 \<lparr>pc_Repo = ''r'', pc_ID = ''c0''\<rparr> (Some 9) False =
   Some (Inr (store0\<lparr>repoTable := [repoR\<lparr>repo_Size := 14\<rparr>],
                commitTable := [commitA\<lparr>commit_Finished := Some 9, commit_Cancelled := False\<rparr>,
                                commitB]\<rparr>))"
  by code_simp

lemma store0_resolve_c0: "getCommitByAmbiguousID store0 ''r'' ''c0'' = Inr commitA"
  by code_simp

lemma store0_parent_c0: "getIDOfParentCommit store0 ''r'' ''c0'' = Inr []"
  by code_simp

lemma store0_parent_c1: "getIDOfParentCommit store0 ''r'' ''c1'' = Inr ''c0''"
  by code_simp

text \<open>
  C4, as the claim states it, fails: \<^verbatim>\<open>FinishCommit\<close> has no check of the \<^verbatim>\<open>Finished\<close> field.
  On the finished commit \<^verbatim>\<open>c0\<close> of the example store it succeeds, replaces the finish time
  2 by 9, clears the cancelled flag and adds the commit's size 4 to the repo's 10.
\<close>

theorem FinishCommit_finished_counterexample:
  "getCommitByAmbiguousID store0 ''r'' ''c0'' = Inr commitA \<and>
   commit_Finished commitA = Some 2 \<and>
   FinishCommit store0 \<lparr>pc_Repo = ''r'', pc_ID = ''c0''\<rparr> (Some 9) False =
     Some (Inr (store0\<lparr>repoTable := [repoR\<lparr>repo_Size := 14\<rparr>],
                  commitTable := [commitA\<lparr>commit_Finished := Some 9, commit_Cancelled := False\<rparr>,
                                  commitB]\<rparr>))"
  by (simp add: store0_resolve_c0 store0_finish_c0) (simp add: commitA_def)

text \<open>
  C4, amended. For a commit whose \<^verbatim>\<open>Finished\<close> field is non-null, \<^verbatim>\<open>FinishCommit\<close> does not
  fail on that account: when the reference and its parent resolve and the parent, if there
  is one, is finished, the call succeeds as it does for an unfinished commit. It stores the
  new finish time and the recomputed size in the commit record and adds that size to the
  repo record once more.
\<close>

theorem FinishCommit_finished_again:
  assumes "getCommitByAmbiguousID s (pc_Repo commit) (pc_ID commit) = Inr raw"
      and "commit_Finished raw \<noteq> None"
      and "getIDOfParentCommit s (pc_Repo commit) (pc_ID commit) = Inr pid"
      and "pid = [] \<or> (\<exists>p. getCommit s pid = Some p \<and> commit_Finished p \<noteq> None)"
  shows "\<exists>s'. FinishCommit s commit finished cancel = Some (Inr s') \<and>
      map_option commit_Finished (getCommit s' (commit_ID raw)) = Some finished \<and>
      map_option commit_Size (getCommit s' (commit_ID raw))
        = Some (computeCommitSize s (commit_ID raw)) \<and>
      map_option repo_Size (getRepo s' (commit_Repo raw))
        = map_option (\<lambda>r. repo_Size r + computeCommitSize s (commit_ID raw))
            (getRepo s (commit_Repo raw))"
proof -
  have "\<exists>pc. (if pid \<noteq> [] then
        (case getCommit s pid of
           None \<Rightarrow> None
         | Some p \<Rightarrow> if commit_Finished p \<noteq> None then Some (commit_Cancelled p) else None)
      else Some False) = Some pc"
  proof (cases "pid = []")
    case True
    then show ?thesis by auto
  next
    case False
    with assms(4) obtain p where "getCommit s pid = Some p" "commit_Finished p \<noteq> None"
      by blast
    with False show ?thesis by simp
  qed
  then obtain pc where pc:
    "(if pid \<noteq> [] then
        (case getCommit s pid of
           None \<Rightarrow> None
         | Some p \<Rightarrow> if commit_Finished p \<noteq> None then Some (commit_Cancelled p) else None)
      else Some False) = Some pc"
    by blast
  define raw' where "raw' = raw\<lparr>commit_Size := computeCommitSize s (commit_ID raw),
                  commit_Finished := finished, commit_Cancelled := (pc \<or> cancel)\<rparr>"
  define s' where "s' = updateCommit
             (updateRepoSize s (commit_Repo raw) (computeCommitSize s (commit_ID raw))) raw'"
  have f: "FinishCommit s commit finished cancel = Some (Inr s')"
    using assms(1,3) pc by (simp add: FinishCommit_def Let_def s'_def raw'_def)
  have c: "getCommit s' (commit_ID raw) = Some raw'"
    by (rule FinishCommit_stored(1) [OF assms(1) s'_def]) (simp add: raw'_def)
  have g: "getRepo s' (commit_Repo raw)
           = map_option (\<lambda>r. r\<lparr>repo_Size := repo_Size r + computeCommitSize s (commit_ID raw)\<rparr>)
               (getRepo s (commit_Repo raw))"
    by (rule FinishCommit_stored(2) [OF assms(1) s'_def]) (simp add: raw'_def)
  have "map_option commit_Finished (getCommit s' (commit_ID raw)) = Some finished"
    by (simp add: c raw'_def)
  moreover have "map_option commit_Size (getCommit s' (commit_ID raw))
        = Some (computeCommitSize s (commit_ID raw))"
    by (simp add: c raw'_def)
  moreover have "map_option repo_Size (getRepo s' (commit_Repo raw))
        = map_option (\<lambda>r. repo_Size r + computeCommitSize s (commit_ID raw))
            (getRepo s (commit_Repo raw))"
    by (simp add: g option.map_comp comp_def)
  ultimately show ?thesis
    using f by blast
qed

theorem FinishCommit_finished_again_witness:
  "commit_Finished commitA \<noteq> None \<and>
   (\<exists>s'. FinishCommit store0 \<lparr>pc_Repo = ''r'', pc_ID = ''c0''\<rparr> (Some 9) True = Some (Inr s') \<and>
      map_option commit_Finished (getCommit s' ''c0'') = Some (Some 9) \<and>
      map_option commit_Size (getCommit s' ''c0'') = Some 4 \<and>
      map_option repo_Size (getRepo s' ''r'') = Some 14)"
proof -
  have a: "commit_Finished commitA \<noteq> None" "commit_ID commitA = ''c0''"
    "commit_Repo commitA = ''r''"
    by (simp_all add: commitA_def)
  have d: "computeCommitSize store0 ''c0'' = 4"
    by code_simp
  have g: "getRepo store0 ''r'' = Some repoR" "repo_Size repoR = 10"
    by (simp_all add: getRepo_def store0_def repoR_def)
  show ?thesis
    using FinishCommit_finished_again [of store0 "\<lparr>pc_Repo = ''r'', pc_ID = ''c0''\<rparr>" commitA
        "[]" "Some 9" True] a
    by (simp add: store0_resolve_c0 store0_parent_c0 d g)
qed

section \<open>The parent that FinishCommit waits for\<close>

text \<open>
  The index lookup of \<^verbatim>\<open>getIDOfParentCommit\<close> finds the first commit on the clock it is
  given, and the clock it is given is the one the spec names as the parent's.
\<close>

lemma commitBranchKeys_onClock:
  "((r, b, n) \<in> set (commitBranchKeys c)) = onClock r b n c"
  by (auto simp add: commitBranchKeys_def onClock_def)

lemma filter_case_find:
  "(case filter P xs of [] \<Rightarrow> a | c # _ \<Rightarrow> f c) = (case find P xs of None \<Rightarrow> a | Some c \<Rightarrow> f c)"
  by (induction xs) simp_all

lemma getCommitByIndex_find:
  "getCommitByIndex s (r, b, n) =
     (case find (onClock r b n) (commitTable s) of
        None \<Rightarrow> Inl ErrNotFoundInIndex
      | Some c \<Rightarrow> Inr c)"
  by (simp add: getCommitByIndex_def filter_case_find commitBranchKeys_onClock)

lemma last_butlast_nth:
  assumes "2 \<le> length bc"
  shows "bc ! (length bc - 2) = last (butlast bc)"
proof -
  have n: "butlast bc \<noteq> []"
    using assms by (cases bc) (auto simp add: Suc_le_eq)
  have "last (butlast bc) = butlast bc ! (length (butlast bc) - 1)"
    by (rule last_conv_nth [OF n])
  also have "\<dots> = bc ! (length (butlast bc) - 1)"
    using assms by (intro nth_butlast) simp
  also have "length (butlast bc) - 1 = length bc - 2"
    by simp
  finally show ?thesis
    by simp
qed

lemma getIDOfParentCommit_parentClock:
  assumes "getCommitByAmbiguousID s repo ref = Inr raw"
      and "commit_BranchClocks raw = bc # rest"
      and "bc \<noteq> []"
  shows "getIDOfParentCommit s repo ref =
     (case parentClock bc of
        None \<Rightarrow> Inr []
      | Some (b, n) \<Rightarrow>
          (case find (onClock (commit_Repo raw) b n) (commitTable s) of
             None \<Rightarrow> Inl ErrNotFoundInIndex
           | Some parent \<Rightarrow> Inr (commit_ID parent)))"
proof -
  have l: "bc ! (length bc - 1) = last bc"
    using assms(3) by (simp add: last_conv_nth)
  show ?thesis
  proof (cases "0 < clock_Clock (last bc)")
    case True
    then show ?thesis
      using assms l
      by (simp add: getIDOfParentCommit_def Let_def parentClock_def getCommitByIndex_find
            split: option.splits)
  next
    case False
    show ?thesis
    proof (cases "length bc < 2")
      case True
      then have "butlast bc = []"
        using assms(3) by (cases bc) auto
      then show ?thesis
        using assms l False True
        by (simp add: getIDOfParentCommit_def Let_def parentClock_def)
    next
      case long: False
      then have b: "butlast bc \<noteq> []"
        using assms(3) by (cases bc) auto
      have "bc ! (length bc - 2) = last (butlast bc)"
        using long by (intro last_butlast_nth) simp
      then show ?thesis
        using assms l False long b
        by (simp add: getIDOfParentCommit_def Let_def parentClock_def getCommitByIndex_find
            split: option.splits)
    qed
  qed
qed

lemma getIDOfParentCommit_clocks:
  assumes "getCommitByAmbiguousID s repo ref = Inr raw"
      and "getIDOfParentCommit s repo ref = Inr pid"
  shows "\<exists>bc rest. commit_BranchClocks raw = bc # rest \<and> bc \<noteq> []"
proof (cases "commit_BranchClocks raw")
  case Nil
  with assms show ?thesis
    by (simp add: getIDOfParentCommit_def)
next
  case (Cons bc rest)
  with assms show ?thesis
    by (cases "bc = []") (simp_all add: getIDOfParentCommit_def)
qed

lemma find_distinct_id:
  assumes "distinct (map commit_ID xs)" and "c \<in> set xs"
  shows "find (\<lambda>d. commit_ID d = commit_ID c) xs = Some c"
  using assms by (induction xs) (auto simp add: image_iff)

lemma find_Some_mem: "find P xs = Some c \<Longrightarrow> c \<in> set xs \<and> P c"
  by (induction xs) (auto split: if_splits)

lemma store2_finish_c3:
  "FinishCommit store2 \<lparr>pc_Repo = ''r'', pc_ID = ''c3''\<rparr> (Some 9) False =
   Some (Inr (store2\<lparr>commitTable := [commitA, commitB,
                                      commitD\<lparr>commit_Finished := Some 9,
                                              commit_Cancelled := True\<rparr>]\<rparr>))"
  by code_simp

lemma store2_resolve_c3: "getCommitByAmbiguousID store2 ''r'' ''c3'' = Inr commitD"
  by code_simp

lemma store2_parent_c3:
  "parentClock [\<lparr>clock_Branch = ''master'', clock_Clock = 0\<rparr>,
                \<lparr>clock_Branch = ''dev'', clock_Clock = 0\<rparr>] = Some (''master'', 0)"
  "find (onClock ''r'' ''master'' 0) (commitTable store2) = Some commitA"
  "distinct (map commit_ID (commitTable store2))"
  by code_simp+

text \<open>
  C7. A commit finished by \<^verbatim>\<open>FinishCommit\<close> with flag \<open>cancel\<close> is stored with
  \<^verbatim>\<open>Cancelled\<close> equal to \<open>cancel\<close> or the \<^verbatim>\<open>Cancelled\<close> flag of its finished parent, and
  equal to \<open>cancel\<close> alone when it has no parent. The parent is the one the spec names: with
  \<open>(b, n)\<close> the last clock of the commit's first branch clock, the commit of the same repo
  on clock \<open>(b, n - 1)\<close> when \<open>n > 0\<close>, else the commit on the last-but-one clock of that
  branch clock, and none when there is no such clock; the index gives the first commit of
  the table on that clock, and it exists. The wait reads the parent by its id, which is the
  parent itself when the ids of the table are distinct. The code takes the empty id for
  "no parent", so a parent whose id is empty is not waited for. So a cancelled parent makes
  the commit finished after it cancelled, on the same branch and across a branch-off.
\<close>

theorem FinishCommit_cancelled:
  assumes "FinishCommit s commit finished cancel = Some (Inr s')"
  shows "\<exists>raw bc rest.
      getCommitByAmbiguousID s (pc_Repo commit) (pc_ID commit) = Inr raw \<and>
      commit_BranchClocks raw = bc # rest \<and> bc \<noteq> [] \<and>
      (case parentClock bc of
         None \<Rightarrow> map_option commit_Cancelled (getCommit s' (commit_ID raw)) = Some cancel
       | Some (b, n) \<Rightarrow>
           (\<exists>parent.
              find (onClock (commit_Repo raw) b n) (commitTable s) = Some parent \<and>
              (if commit_ID parent = [] then
                 map_option commit_Cancelled (getCommit s' (commit_ID raw)) = Some cancel
               else
                 (\<exists>p. getCommit s (commit_ID parent) = Some p \<and>
                      (distinct (map commit_ID (commitTable s)) \<longrightarrow> p = parent) \<and>
                      commit_Finished p \<noteq> None \<and>
                      map_option commit_Cancelled (getCommit s' (commit_ID raw))
                        = Some (cancel \<or> commit_Cancelled p)))))"
proof -
  from FinishCommit_success [OF assms] obtain raw pid pc where
    r: "getCommitByAmbiguousID s (pc_Repo commit) (pc_ID commit) = Inr raw" and
    p: "getIDOfParentCommit s (pc_Repo commit) (pc_ID commit) = Inr pid" and
    pc: "if pid = [] then pc = False
         else (\<exists>p. getCommit s pid = Some p \<and> commit_Finished p \<noteq> None \<and>
                   pc = commit_Cancelled p)" and
    s': "s' = updateCommit
             (updateRepoSize s (commit_Repo raw) (computeCommitSize s (commit_ID raw)))
             (raw\<lparr>commit_Size := computeCommitSize s (commit_ID raw),
                  commit_Finished := finished, commit_Cancelled := (pc \<or> cancel)\<rparr>)"
    by blast
  have c: "getCommit s' (commit_ID raw)
           = Some (raw\<lparr>commit_Size := computeCommitSize s (commit_ID raw),
                  commit_Finished := finished, commit_Cancelled := (pc \<or> cancel)\<rparr>)"
    by (rule FinishCommit_stored(1) [OF r s']) simp
  have k: "map_option commit_Cancelled (getCommit s' (commit_ID raw)) = Some (pc \<or> cancel)"
    by (simp add: c)
  from getIDOfParentCommit_clocks [OF r p] obtain bc rest where
    b: "commit_BranchClocks raw = bc # rest" "bc \<noteq> []"
    by blast
  note q = getIDOfParentCommit_parentClock [OF r b]
  have "case parentClock bc of
         None \<Rightarrow> map_option commit_Cancelled (getCommit s' (commit_ID raw)) = Some cancel
       | Some (b, n) \<Rightarrow>
           (\<exists>parent.
              find (onClock (commit_Repo raw) b n) (commitTable s) = Some parent \<and>
              (if commit_ID parent = [] then
                 map_option commit_Cancelled (getCommit s' (commit_ID raw)) = Some cancel
               else
                 (\<exists>p. getCommit s (commit_ID parent) = Some p \<and>
                      (distinct (map commit_ID (commitTable s)) \<longrightarrow> p = parent) \<and>
                      commit_Finished p \<noteq> None \<and>
                      map_option commit_Cancelled (getCommit s' (commit_ID raw))
                        = Some (cancel \<or> commit_Cancelled p))))"
  proof (cases "parentClock bc")
    case None
    with q p have "pid = []"
      by simp
    with pc k None show ?thesis
      by simp
  next
    case (Some bn)
    obtain br n where bn: "bn = (br, n)"
      by (cases bn)
    from q p Some bn obtain parent where
      f: "find (onClock (commit_Repo raw) br n) (commitTable s) = Some parent" and
      i: "pid = commit_ID parent"
      by (cases "find (onClock (commit_Repo raw) br n) (commitTable s)") simp_all
    have m: "parent \<in> set (commitTable s)"
      using find_Some_mem [OF f] by simp
    show ?thesis
    proof (cases "commit_ID parent = []")
      case True
      with pc k i f Some bn show ?thesis
        by simp
    next
      case False
      with pc i obtain par where
        g: "getCommit s (commit_ID parent) = Some par" "commit_Finished par \<noteq> None"
           "pc = commit_Cancelled par"
        by auto
      have "distinct (map commit_ID (commitTable s)) \<longrightarrow> par = parent"
        using find_distinct_id [OF _ m] g(1) by (auto simp add: getCommit_def)
      with g k f False Some bn show ?thesis
        by auto
    qed
  qed
  with r b show ?thesis
    by blast
qed

theorem FinishCommit_cancelled_witness:
  "(let s' = store2\<lparr>commitTable := [commitA, commitB,
                                     commitD\<lparr>commit_Finished := Some 9,
                                             commit_Cancelled := True\<rparr>]\<rparr>
    in FinishCommit store2 \<lparr>pc_Repo = ''r'', pc_ID = ''c3''\<rparr> (Some 9) False = Some (Inr s') \<and>
       commit_BranchClocks commitD = [[\<lparr>clock_Branch = ''master'', clock_Clock = 0\<rparr>,
                                       \<lparr>clock_Branch = ''dev'', clock_Clock = 0\<rparr>]] \<and>
       parentClock [\<lparr>clock_Branch = ''master'', clock_Clock = 0\<rparr>,
                    \<lparr>clock_Branch = ''dev'', clock_Clock = 0\<rparr>] = Some (''master'', 0) \<and>
       find (onClock ''r'' ''master'' 0) (commitTable store2) = Some commitA \<and>
       commit_Cancelled commitA \<and>
       map_option commit_Cancelled (getCommit s' ''c3'') = Some True)"
proof -
  have i: "commit_ID commitD = ''c3''" "commit_Repo commitD = ''r''"
    "commit_BranchClocks commitD = [[\<lparr>clock_Branch = ''master'', clock_Clock = 0\<rparr>,
                                     \<lparr>clock_Branch = ''dev'', clock_Clock = 0\<rparr>]]"
    by (simp_all add: commitD_def)
  have a: "commit_Cancelled commitA" "commit_ID commitA = ''c0''"
    by (simp_all add: commitA_def)
  show ?thesis
    using FinishCommit_cancelled [OF store2_finish_c3] store2_finish_c3
    by (auto simp add: store2_resolve_c3 store2_parent_c3 i a Let_def)
qed

section \<open>DeleteRepo, DeleteCommit, Merge and InspectCommit\<close>

lemma find_filter_other: "find (\<lambda>r. repo_Name r = name) (filter (\<lambda>r. repo_Name r \<noteq> name) xs) = None"
  by (induction xs) auto

text \<open>
  C3, as the claim states it, fails: \<^verbatim>\<open>DeleteRepo\<close> deletes the repo record only. In the
  example store the two commits and the three diffs of repo \<^verbatim>\<open>r\<close> are still stored after
  \<^verbatim>\<open>DeleteRepo\<close> of \<^verbatim>\<open>r\<close>.
\<close>

theorem DeleteRepo_counterexample:
  "DeleteRepo store0 ''r'' = Inr (store0\<lparr>repoTable := []\<rparr>) \<and>
   commitTable (store0\<lparr>repoTable := []\<rparr>) = [commitA, commitB] \<and>
   commit_Repo commitA = ''r'' \<and>
   map diff_Repo (diffTable (store0\<lparr>repoTable := []\<rparr>)) = [''r'', ''r'', ''r'']"
  by (simp add: DeleteRepo_def store0_def repoR_def commitA_def fileDiff_def)

text \<open>
  C3, amended. \<^verbatim>\<open>DeleteRepo\<close> of a name always succeeds and deletes the repo record of
  that name, so that no repo record bears the name afterwards; the other repo records and
  the commit, clock-id and diff tables are left as they were.
\<close>

theorem DeleteRepo_repo_record_only:
  "\<exists>s'. DeleteRepo s name = Inr s' \<and>
      getRepo s' name = None \<and>
      repoTable s' = filter (\<lambda>r. repo_Name r \<noteq> name) (repoTable s) \<and>
      commitTable s' = commitTable s \<and>
      clockTable s' = clockTable s \<and>
      diffTable s' = diffTable s"
  by (simp add: DeleteRepo_def getRepo_def find_filter_other)

theorem DeleteRepo_repo_record_only_witness:
  "\<exists>s'. DeleteRepo store0 ''r'' = Inr s' \<and>
      getRepo s' ''r'' = None \<and>
      repoTable s' = [] \<and>
      commitTable s' = [commitA, commitB] \<and>
      clockTable s' = [] \<and>
      length (diffTable s') = 3"
  using DeleteRepo_repo_record_only [of store0 "''r''"]
  by (auto simp: store0_def repoR_def)

text \<open>
  C8, as the claim states it, fails for \<^verbatim>\<open>Merge\<close>: it returns an empty list of commits and
  no error.
\<close>

theorem Merge_counterexample:
  "fst (Merge store0 [\<lparr>pc_Repo = ''r'', pc_ID = ''c1''\<rparr>] \<lparr>pc_Repo = ''r'', pc_ID = ''c0''\<rparr>)
   = Inr []"
  by (simp add: Merge_def)

text \<open>
  C8, amended. For every input, \<^verbatim>\<open>DeleteCommit\<close> returns its "not supported" error at once
  and \<^verbatim>\<open>Merge\<close> returns an empty list of commits without an error at once; both leave the
  store as it is, and neither result depends on the store.
\<close>

theorem DeleteCommit_Merge_immediate:
  "DeleteCommit s commit = (Inl (ErrMessage ''DeleteCommit is not supported''), s) \<and>
   Merge s from parent = (Inr [], s)"
  by (simp add: DeleteCommit_def Merge_def)

theorem DeleteCommit_Merge_immediate_witness:
  "DeleteCommit store0 \<lparr>pc_Repo = ''r'', pc_ID = ''c1''\<rparr>
     = (Inl (ErrMessage ''DeleteCommit is not supported''), store0) \<and>
   Merge store0 [] \<lparr>pc_Repo = ''r'', pc_ID = ''c1''\<rparr> = (Inr [], store0)"
  using DeleteCommit_Merge_immediate [of store0 "\<lparr>pc_Repo = ''r'', pc_ID = ''c1''\<rparr>" "[]"
      "\<lparr>pc_Repo = ''r'', pc_ID = ''c1''\<rparr>"]
  by simp

text \<open>
  C10. Whatever reference \<^verbatim>\<open>InspectCommit\<close> accepts (a raw id, a branch name or a
  \<^verbatim>\<open>branch/n\<close> alias), the id in the answer is the reference of the request, while the
  repo, the start and finish times, the cancelled flag and the commit type come from the
  record the reference resolves to.
\<close>

theorem InspectCommit_request_id:
  assumes "InspectCommit s commit = Inr info"
  shows "pc_ID (ci_Commit info) = pc_ID commit \<and>
     (\<exists>raw. getCommitByAmbiguousID s (pc_Repo commit) (pc_ID commit) = Inr raw \<and>
        pc_Repo (ci_Commit info) = commit_Repo raw \<and>
        ci_Started info = commit_Started raw \<and>
        ci_Finished info = commit_Finished raw \<and>
        ci_Cancelled info = commit_Cancelled raw \<and>
        ci_CommitType info = (if commit_Finished raw = None then COMMIT_TYPE_WRITE
                              else COMMIT_TYPE_READ))"
proof -
  obtain raw where r: "getCommitByAmbiguousID s (pc_Repo commit) (pc_ID commit) = Inr raw"
    using assms by (cases "getCommitByAmbiguousID s (pc_Repo commit) (pc_ID commit)")
      (simp_all add: InspectCommit_def)
  obtain ci where c: "rawCommitToCommitInfo raw = Inr ci"
    using assms r by (cases "rawCommitToCommitInfo raw") (simp_all add: InspectCommit_def)
  obtain branch where ci: "ci = \<lparr>ci_Commit = \<lparr>pc_Repo = commit_Repo raw, pc_ID = commit_ID raw\<rparr>,
               ci_Branch = branch,
               ci_Started = commit_Started raw,
               ci_Finished = commit_Finished raw,
               ci_Cancelled = commit_Cancelled raw,
               ci_CommitType = (if commit_Finished raw = None then COMMIT_TYPE_WRITE
                                else COMMIT_TYPE_READ),
               ci_SizeBytes = commit_Size raw\<rparr>"
    using c by (auto simp: rawCommitToCommitInfo_def split: sum.splits)
  have "info = (let commitInfo1 =
                     (if ci_Finished ci = None
                      then ci\<lparr>ci_SizeBytes := computeCommitSize s (commit_ID raw)\<rparr>
                      else ci)
               in commitInfo1\<lparr>ci_Commit := (ci_Commit commitInfo1)\<lparr>pc_ID := pc_ID commit\<rparr>\<rparr>)"
    using assms r c by (auto simp add: InspectCommit_def Let_def)
  then show ?thesis
    using r by (simp add: ci Let_def)
qed

theorem InspectCommit_request_id_witness:
  "commit_ID commitB = ''c1'' \<and>
   map (\<lambda>ref. map_sum id (\<lambda>i. (pc_ID (ci_Commit i), ci_Started i, ci_SizeBytes i))
                 (InspectCommit store0 \<lparr>pc_Repo = ''r'', pc_ID = ref\<rparr>))
       [''c1'', ''master'', ''master/1'']
   = [Inr (''c1'', Some 3, 12), Inr (''master'', Some 3, 12), Inr (''master/1'', Some 3, 12)]"
proof -
  have a: "InspectCommit store0 \<lparr>pc_Repo = ''r'', pc_ID = ''master/1''\<rparr> =
     Inr \<lparr>ci_Commit = \<lparr>pc_Repo = ''r'', pc_ID = ''master/1''\<rparr>, ci_Branch = ''master'',
       ci_Started = Some 3, ci_Finished = None, ci_Cancelled = False,
       ci_CommitType = COMMIT_TYPE_WRITE, ci_SizeBytes = 12\<rparr>"
    by code_simp
  have b: "InspectCommit store0 \<lparr>pc_Repo = ''r'', pc_ID = ''master''\<rparr> =
     Inr \<lparr>ci_Commit = \<lparr>pc_Repo = ''r'', pc_ID = ''master''\<rparr>, ci_Branch = ''master'',
       ci_Started = Some 3, ci_Finished = None, ci_Cancelled = False,
       ci_CommitType = COMMIT_TYPE_WRITE, ci_SizeBytes = 12\<rparr>"
    by code_simp
  have c: "InspectCommit store0 \<lparr>pc_Repo = ''r'', pc_ID = ''c1''\<rparr> =
     Inr \<lparr>ci_Commit = \<lparr>pc_Repo = ''r'', pc_ID = ''c1''\<rparr>, ci_Branch = ''master'',
       ci_Started = Some 3, ci_Finished = None, ci_Cancelled = False,
       ci_CommitType = COMMIT_TYPE_WRITE, ci_SizeBytes = 12\<rparr>"
    by code_simp
  show ?thesis
    using InspectCommit_request_id [OF a] InspectCommit_request_id [OF b]
      InspectCommit_request_id [OF c]
    by (simp add: a b c) (simp add: commitB_def)
qed

section \<open>The fold behind InspectFile and GetFile\<close>






















text \<open>
  C6: \<^verbatim>\<open>GetFile\<close> refuses a folded diff of type \<^verbatim>\<open>DIR\<close> only. At \<^verbatim>\<open>/a\<close> in commit \<^verbatim>\<open>c2\<close> of
  \<open>store1\<close>, where the fold ends in the delete diff and has file type \<^verbatim>\<open>NONE\<close>, and at
  \<^verbatim>\<open>/nothing\<close>, which no diff mentions, \<^verbatim>\<open>GetFile\<close> returns a reader over no block refs, while
  \<^verbatim>\<open>InspectFile\<close> reports both files as not found.
\<close>

theorem GetFile_NONE_returns_reader:
  "GetFile noSharding store1 (fileAt ''c2'' ''/a'') None 0 0 None
     = Inr \<lparr>fr_offset = 0, fr_size = 0, fr_sizeRead = 0, fr_blockRefs = [],
            fr_file = fileAt ''c2'' ''/a''\<rparr> \<and>
   InspectFile noSharding store1 (fileAt ''c2'' ''/a'') None None = Inl ErrFileNotFound \<and>
   GetFile noSharding store1 (fileAt ''c2'' ''/nothing'') None 0 0 None
     = Inr \<lparr>fr_offset = 0, fr_size = 0, fr_sizeRead = 0, fr_blockRefs = [],
            fr_file = fileAt ''c2'' ''/nothing''\<rparr> \<and>
   InspectFile noSharding store1 (fileAt ''c2'' ''/nothing'') None None = Inl ErrFileNotFound"
proof -
  have a: "GetFile noSharding store1 (fileAt ''c2'' ''/a'') None 0 0 None
     = Inr \<lparr>fr_offset = 0, fr_size = 0, fr_sizeRead = 0, fr_blockRefs = [],
            fr_file = fileAt ''c2'' ''/a''\<rparr>"
    by code_simp
  have b: "InspectFile noSharding store1 (fileAt ''c2'' ''/a'') None None = Inl ErrFileNotFound"
    by code_simp
  have c: "GetFile noSharding store1 (fileAt ''c2'' ''/nothing'') None 0 0 None
     = Inr \<lparr>fr_offset = 0, fr_size = 0, fr_sizeRead = 0, fr_blockRefs = [],
            fr_file = fileAt ''c2'' ''/nothing''\<rparr>"
    by code_simp
  have d: "InspectFile noSharding store1 (fileAt ''c2'' ''/nothing'') None None
           = Inl ErrFileNotFound"
    by code_simp
  show ?thesis
    using a b c d by simp
qed

section \<open>Single inserts into the diff table\<close>

lemma find_append_last:
  "find P (xs @ [y]) = (case find P xs of Some x \<Rightarrow> Some x | None \<Rightarrow> if P y then Some y else None)"
  by (induction xs) auto

lemma find_map_merge:
  "find (\<lambda>d. diff_ID d = k) xs = Some old \<Longrightarrow> diff_ID m = k \<Longrightarrow>
   find (\<lambda>d. diff_ID d = k) (map (\<lambda>d. if diff_ID d = k then m else d) xs) = Some m"
  by (induction xs) (auto split: if_splits)

lemma find_map_other:
  "k' \<noteq> k \<Longrightarrow> diff_ID m = k \<Longrightarrow>
   find (\<lambda>d. diff_ID d = k') (map (\<lambda>d. if diff_ID d = k then m else d) xs)
   = find (\<lambda>d. diff_ID d = k') xs"
  by (induction xs) auto

lemma getDiff_Some: "getDiff table k = Some d \<Longrightarrow> d \<in> set table \<and> diff_ID d = k"
  by (auto simp: getDiff_def find_Some_iff)

lemma getDiff_None: "getDiff table k = None \<Longrightarrow> d \<in> set table \<Longrightarrow> diff_ID d \<noteq> k"
  by (auto simp: getDiff_def find_None_iff)

lemma putFileConflict_Inr:
  "putFileConflict old new = Inr m \<Longrightarrow>
   (diff_FileType old = FileType_NONE \<or> diff_FileType old = diff_FileType new) \<and>
   m = old\<lparr>diff_BlockRefs := diff_BlockRefs old @ diff_BlockRefs new,
           diff_Size := diff_Size old + diff_Size new,
           diff_FileType := diff_FileType new,
           diff_Modified := diff_Modified new\<rparr>"
  by (auto simp: putFileConflict_def split: if_splits)

lemma putFileConflict_Inl: "putFileConflict old new = Inl e \<Longrightarrow> e = ErrConflictFileType"
  by (auto simp: putFileConflict_def split: if_splits)

lemma insertDiff_new:
  "getDiff table (diff_ID new) = None \<Longrightarrow> insertDiff table new = (None, table @ [new])"
  by (simp add: insertDiff_def)

lemma insertDiff_conflict:
  "getDiff table (diff_ID new) = Some old \<Longrightarrow>
   diff_FileType old \<noteq> FileType_NONE \<Longrightarrow> diff_FileType old \<noteq> diff_FileType new \<Longrightarrow>
   insertDiff table new = (Some ErrConflictFileType, table)"
  by (simp add: insertDiff_def putFileConflict_def)

lemma insertDiff_merge:
  assumes "getDiff table (diff_ID new) = Some old"
      and "diff_FileType old = FileType_NONE \<or> diff_FileType old = diff_FileType new"
  shows "insertDiff table new =
           (None, map (\<lambda>d. if diff_ID d = diff_ID new
                            then old\<lparr>diff_BlockRefs := diff_BlockRefs old @ diff_BlockRefs new,
                                     diff_Size := diff_Size old + diff_Size new,
                                     diff_FileType := diff_FileType new,
                                     diff_Modified := diff_Modified new\<rparr>
                            else d) table)"
  using assms by (auto simp: insertDiff_def putFileConflict_def)

lemma insertDiff_error: "insertDiff table new = (Some e, table') \<Longrightarrow> e = ErrConflictFileType"
  by (auto simp: insertDiff_def split: option.splits sum.splits dest: putFileConflict_Inl)

lemma insertDiff_cases:
  assumes "insertDiff table new = (None, table')"
  obtains (fresh) "getDiff table (diff_ID new) = None" "table' = table @ [new]"
  | (merged) old where "getDiff table (diff_ID new) = Some old"
      "diff_FileType old = FileType_NONE \<or> diff_FileType old = diff_FileType new"
      "table' = map (\<lambda>d. if diff_ID d = diff_ID new
                            then old\<lparr>diff_BlockRefs := diff_BlockRefs old @ diff_BlockRefs new,
                                     diff_Size := diff_Size old + diff_Size new,
                                     diff_FileType := diff_FileType new,
                                     diff_Modified := diff_Modified new\<rparr>
                            else d) table"
proof (cases "getDiff table (diff_ID new)")
  case None
  with assms have "table' = table @ [new]" by (simp add: insertDiff_def)
  with None show ?thesis by (rule fresh)
next
  case (Some old)
  show ?thesis
  proof (cases "diff_FileType old = FileType_NONE \<or> diff_FileType old = diff_FileType new")
    case True
    from insertDiff_merge [OF Some True] assms show ?thesis
      using Some True by (intro merged [of old]) simp_all
  next
    case False
    with insertDiff_conflict [OF Some] assms show ?thesis by simp
  qed
qed

lemma insertDiff_other_key:
  assumes "insertDiff table new = (e, table')" and "k \<noteq> diff_ID new"
  shows "getDiff table' k = getDiff table k"
proof (cases "getDiff table (diff_ID new)")
  case None
  with assms show ?thesis
    by (auto simp: insertDiff_def getDiff_def find_append_last split: option.splits)
next
  case (Some old)
  show ?thesis
  proof (cases "putFileConflict old new")
    case (Inl x)
    with Some assms show ?thesis by (simp add: insertDiff_def)
  next
    case (Inr m)
    have "diff_ID m = diff_ID new"
      using putFileConflict_Inr [OF Inr] getDiff_Some [OF Some] by simp
    with Some Inr assms show ?thesis
      by (auto simp: insertDiff_def getDiff_def find_map_other)
  qed
qed

lemma insertDiff_same_key:
  assumes "insertDiff table new = (None, table')"
  shows "getDiff table' (diff_ID new) =
           (case getDiff table (diff_ID new) of
              None \<Rightarrow> Some new
            | Some old \<Rightarrow> Some (old\<lparr>diff_BlockRefs := diff_BlockRefs old @ diff_BlockRefs new,
                                     diff_Size := diff_Size old + diff_Size new,
                                     diff_FileType := diff_FileType new,
                                     diff_Modified := diff_Modified new\<rparr>))"
  using assms
proof (cases rule: insertDiff_cases)
  case fresh
  then show ?thesis by (simp add: getDiff_def find_append_last)
next
  case (merged old)
  have "diff_ID old = diff_ID new" using getDiff_Some [OF merged(1)] by simp
  with merged show ?thesis
    by (simp add: getDiff_def find_map_merge)
qed

section \<open>Batches of inserts\<close>

lemma insertDiffs_Cons_success:
  assumes "insertDiffs table (d # ds) = (None, table')"
  obtains table1 where "insertDiff table d = (None, table1)"
    and "insertDiffs table1 ds = (None, table')"
  using assms by (auto split: prod.splits option.splits)

lemma insertDiffs_append_success:
  "insertDiffs table (xs @ ys) = (None, table') \<Longrightarrow>
   \<exists>table1. insertDiffs table xs = (None, table1) \<and> insertDiffs table1 ys = (None, table')"
proof (induction xs arbitrary: table)
  case Nil
  then show ?case by simp
next
  case (Cons x xs)
  from Cons.prems have "insertDiffs table (x # (xs @ ys)) = (None, table')" by simp
  then obtain t1 where a: "insertDiff table x = (None, t1)"
    and b: "insertDiffs t1 (xs @ ys) = (None, table')"
    by (rule insertDiffs_Cons_success)
  from Cons.IH [OF b] obtain t2 where "insertDiffs t1 xs = (None, t2)"
    and "insertDiffs t2 ys = (None, table')" by blast
  with a show ?case by auto
qed

lemma insertDiffs_error:
  "insertDiffs table ds = (Some e, table') \<Longrightarrow> e = ErrConflictFileType"
proof (induction ds arbitrary: table table')
  case Nil
  then show ?case by simp
next
  case (Cons d ds)
  obtain e1 t1 where a: "insertDiff table d = (e1, t1)" by (cases "insertDiff table d")
  obtain e2 t2 where b: "insertDiffs t1 ds = (e2, t2)" by (cases "insertDiffs t1 ds")
  show ?case
  proof (cases e1)
    case None
    with Cons.prems a b have "e2 = Some e" by simp
    with Cons.IH b show ?thesis by simp
  next
    case (Some x)
    with Cons.prems a b have "x = e" by simp
    with a Some insertDiff_error show ?thesis by blast
  qed
qed

lemma insertDiffs_other_key:
  "insertDiffs table ds = (e, table') \<Longrightarrow> k \<notin> diff_ID ` set ds \<Longrightarrow>
   getDiff table' k = getDiff table k"
proof (induction ds arbitrary: table e table')
  case Nil
  then show ?case by simp
next
  case (Cons d ds)
  obtain e1 t1 where a: "insertDiff table d = (e1, t1)" by (cases "insertDiff table d")
  obtain e2 t2 where b: "insertDiffs t1 ds = (e2, t2)" by (cases "insertDiffs t1 ds")
  from Cons.prems a b have t: "table' = t2" by simp
  from Cons.prems(2) have k: "k \<noteq> diff_ID d" "k \<notin> diff_ID ` set ds" by auto
  have "getDiff t2 k = getDiff t1 k" by (rule Cons.IH [OF b k(2)])
  also have "\<dots> = getDiff table k" by (rule insertDiff_other_key [OF a k(1)])
  finally show ?case using t by simp
qed

lemma insertDiffs_same_key:
  "insertDiffs table ds = (None, table') \<Longrightarrow> distinct (map diff_ID ds) \<Longrightarrow> new \<in> set ds \<Longrightarrow>
   getDiff table' (diff_ID new) =
     (case getDiff table (diff_ID new) of
        None \<Rightarrow> Some new
      | Some old \<Rightarrow> Some (old\<lparr>diff_BlockRefs := diff_BlockRefs old @ diff_BlockRefs new,
                               diff_Size := diff_Size old + diff_Size new,
                               diff_FileType := diff_FileType new,
                               diff_Modified := diff_Modified new\<rparr>))"
proof (induction ds arbitrary: table)
  case Nil
  then show ?case by simp
next
  case (Cons d ds)
  from Cons.prems(1) obtain t1 where a: "insertDiff table d = (None, t1)"
    and b: "insertDiffs t1 ds = (None, table')"
    by (rule insertDiffs_Cons_success)
  from Cons.prems(2) have dist: "diff_ID d \<notin> diff_ID ` set ds" "distinct (map diff_ID ds)"
    by auto
  show ?case
  proof (cases "new = d")
    case True
    have "getDiff table' (diff_ID d) = getDiff t1 (diff_ID d)"
      by (rule insertDiffs_other_key [OF b dist(1)])
    with insertDiff_same_key [OF a] show ?thesis unfolding True by simp
  next
    case False
    with Cons.prems(3) have m: "new \<in> set ds" by simp
    with dist(1) have "diff_ID new \<noteq> diff_ID d" by (metis imageI)
    then have "getDiff t1 (diff_ID new) = getDiff table (diff_ID new)"
      by (rule insertDiff_other_key [OF a])
    with Cons.IH [OF b dist(2) m] show ?thesis by simp
  qed
qed

lemma insertDiffs_old_compatible:
  "insertDiffs table ds = (None, table') \<Longrightarrow> distinct (map diff_ID ds) \<Longrightarrow> new \<in> set ds \<Longrightarrow>
   getDiff table (diff_ID new) = Some old \<Longrightarrow>
   diff_FileType old = FileType_NONE \<or> diff_FileType old = diff_FileType new"
proof (induction ds arbitrary: table)
  case Nil
  then show ?case by simp
next
  case (Cons d ds)
  from Cons.prems(1) obtain t1 where a: "insertDiff table d = (None, t1)"
    and b: "insertDiffs t1 ds = (None, table')"
    by (rule insertDiffs_Cons_success)
  from Cons.prems(2) have dist: "diff_ID d \<notin> diff_ID ` set ds" "distinct (map diff_ID ds)"
    by auto
  show ?case
  proof (cases "new = d")
    case True
    from a show ?thesis
    proof (cases rule: insertDiff_cases)
      case fresh
      with True Cons.prems(4) show ?thesis by simp
    next
      case (merged old')
      with True Cons.prems(4) show ?thesis by simp
    qed
  next
    case False
    with Cons.prems(3) have m: "new \<in> set ds" by simp
    with dist(1) have "diff_ID new \<noteq> diff_ID d" by (metis imageI)
    then have "getDiff t1 (diff_ID new) = getDiff table (diff_ID new)"
      by (rule insertDiff_other_key [OF a])
    with Cons.prems(4) have "getDiff t1 (diff_ID new) = Some old" by simp
    from Cons.IH [OF b dist(2) m this] show ?thesis .
  qed
qed

section \<open>Prefixes count fewer separators than their path\<close>

lemma splitSlash_not_Nil: "splitSlash s \<noteq> []"
  by (induction s) (auto split: list.splits)

lemma splitSlash_parts_no_slash: "p \<in> set (splitSlash s) \<Longrightarrow> CHR ''/'' \<notin> set p"
proof (induction s arbitrary: p)
  case Nil
  then show ?case by simp
next
  case (Cons c cs)
  show ?case
  proof (cases "c = CHR ''/''")
    case True
    with Cons show ?thesis by auto
  next
    case False
    obtain q qs where s: "splitSlash cs = q # qs"
      using splitSlash_not_Nil [of cs] by (cases "splitSlash cs") auto
    with False Cons.prems have "p = c # q \<or> p \<in> set qs" by auto
    then show ?thesis
    proof
      assume "p = c # q"
      moreover have "CHR ''/'' \<notin> set q" using Cons.IH [of q] s by simp
      ultimately show ?thesis using False by auto
    next
      assume "p \<in> set qs"
      then show ?thesis using Cons.IH [of p] s by simp
    qed
  qed
qed

lemma length_splitSlash: "length (splitSlash s) = Suc (count_list s (CHR ''/''))"
proof (induction s)
  case Nil
  then show ?case by simp
next
  case (Cons c cs)
  obtain q qs where s: "splitSlash cs = q # qs"
    using splitSlash_not_Nil [of cs] by (cases "splitSlash cs") auto
  with Cons show ?case by auto
qed

lemma count_slash_free: "CHR ''/'' \<notin> set p \<Longrightarrow> count_list p (CHR ''/'') = 0"
  by (induction p) auto

lemma prefixesLoop_count:
  "(\<forall>p \<in> set parts. CHR ''/'' \<notin> set p) \<Longrightarrow> q \<in> set (prefixesLoop pre parts) \<Longrightarrow>
   count_list pre (CHR ''/'') < count_list q (CHR ''/'') \<and>
   count_list q (CHR ''/'') \<le> count_list pre (CHR ''/'') + length parts"
proof (induction parts arbitrary: pre)
  case Nil
  then show ?case by simp
next
  case (Cons part parts)
  have np: "count_list part (CHR ''/'') = 0"
    using Cons.prems(1) by (simp add: count_slash_free)
  have rest: "\<forall>p \<in> set parts. CHR ''/'' \<notin> set p" using Cons.prems(1) by simp
  show ?case
  proof (cases "part = []")
    case True
    with Cons.prems(2) have "q \<in> set (prefixesLoop pre parts)" by simp
    from Cons.IH [OF rest this] show ?thesis by simp
  next
    case False
    with Cons.prems(2) have "q = pre @ ''/'' @ part \<or> q \<in> set (prefixesLoop (pre @ ''/'' @ part) parts)"
      by simp
    then show ?thesis
    proof
      assume "q = pre @ ''/'' @ part"
      then show ?thesis using np by simp
    next
      assume "q \<in> set (prefixesLoop (pre @ ''/'' @ part) parts)"
      from Cons.IH [OF rest this] show ?thesis using np by simp
    qed
  qed
qed

lemma prefixesLoop_distinct:
  "(\<forall>p \<in> set parts. CHR ''/'' \<notin> set p) \<Longrightarrow> distinct (prefixesLoop pre parts)"
proof (induction parts arbitrary: pre)
  case Nil
  then show ?case by simp
next
  case (Cons part parts)
  have rest: "\<forall>p \<in> set parts. CHR ''/'' \<notin> set p" using Cons.prems by simp
  show ?case
  proof (cases "part = []")
    case True
    with Cons.IH [OF rest] show ?thesis by simp
  next
    case False
    have "pre @ ''/'' @ part \<notin> set (prefixesLoop (pre @ ''/'' @ part) parts)"
      using prefixesLoop_count [OF rest, of "pre @ ''/'' @ part" "pre @ ''/'' @ part"] by auto
    with False Cons.IH [OF rest] show ?thesis by simp
  qed
qed

lemma fixPath_starts_with_slash: "\<exists>cs. fixPath p = CHR ''/'' # cs"
proof -
  define p1 where "p1 = (case p of [] \<Rightarrow> ''/'' | c # _ \<Rightarrow> if c \<noteq> CHR ''/'' then CHR ''/'' # p else p)"
  have "\<exists>cs. p1 = CHR ''/'' # cs"
    by (cases p) (simp_all add: p1_def)
  then obtain cs where c: "p1 = CHR ''/'' # cs" by blast
  have f: "fixPath p = (if 1 < length p1 \<and> last p1 = CHR ''/'' then butlast p1 else p1)"
    by (simp add: fixPath_def p1_def Let_def)
  show ?thesis
  proof (cases "1 < length p1 \<and> last p1 = CHR ''/''")
    case True
    with c have "cs \<noteq> []" by auto
    with c True f show ?thesis by simp
  next
    case False
    with c f show ?thesis by simp
  qed
qed

lemma getPrefixes_distinct_path:
  assumes "path = CHR ''/'' # cs"
  shows "distinct (getPrefixes path @ [path])"
proof -
  have parts: "\<forall>p \<in> set (butlast (splitSlash cs)). CHR ''/'' \<notin> set p"
    using splitSlash_parts_no_slash [of _ cs] by (auto dest: in_set_butlastD)
  have g: "getPrefixes path = prefixesLoop [] (butlast (splitSlash cs))"
    using assms splitSlash_not_Nil [of cs] by (simp add: getPrefixes_def)
  have "count_list q (CHR ''/'') < count_list path (CHR ''/'')" if "q \<in> set (getPrefixes path)" for q
  proof -
    from that g have "q \<in> set (prefixesLoop [] (butlast (splitSlash cs)))" by simp
    from prefixesLoop_count [OF parts this]
    have "count_list q (CHR ''/'') \<le> length (splitSlash cs) - 1" by simp
    also have "\<dots> = count_list cs (CHR ''/'')" by (simp add: length_splitSlash)
    finally show ?thesis using assms by simp
  qed
  then have "path \<notin> set (getPrefixes path)" by auto
  moreover have "distinct (getPrefixes path)"
    using g prefixesLoop_distinct [OF parts] by simp
  ultimately show ?thesis by simp
qed

lemma getDiffID_inj: "getDiffID c p = getDiffID c q \<Longrightarrow> p = q"
  by (simp add: getDiffID_def)

lemma set_plannedDiffs:
  "set (plannedDiffs commit path refs now) =
     (\<lambda>i. dirDiff commit (now i) (getPrefixes path ! i)) ` {0 ..< length (getPrefixes path)}
     \<union> {leafDiff commit (now (length (getPrefixes path))) path refs}"
  by (auto simp: plannedDiffs_def Let_def)

lemma ids_plannedDiffs:
  "map diff_ID (plannedDiffs commit path refs now)
   = map (getDiffID (commit_ID commit)) (getPrefixes path @ [path])"
proof -
  have "map diff_ID (map (\<lambda>i. dirDiff commit (now i) (getPrefixes path ! i))
                       [0 ..< length (getPrefixes path)])
        = map (getDiffID (commit_ID commit)) (getPrefixes path)"
    by (rule nth_equalityI) (simp_all add: dirDiff_def)
  then show ?thesis
    by (simp add: plannedDiffs_def Let_def leafDiff_def)
qed

lemma distinct_plannedDiffs:
  assumes "path = CHR ''/'' # cs"
  shows "distinct (map diff_ID (plannedDiffs commit path refs now))"
proof -
  have "inj_on (getDiffID (commit_ID commit)) (set (getPrefixes path @ [path]))"
    by (rule inj_onI) (rule getDiffID_inj)
  with getPrefixes_distinct_path [OF assms] show ?thesis
    by (simp only: ids_plannedDiffs distinct_map)
qed

section \<open>PutFile as a batch of upserts\<close>

lemma PutFile_resolved:
  assumes "getCommitByAmbiguousID s (pc_Repo (pf_Commit file)) (pc_ID (pf_Commit file)) = Inr commit"
  shows "PutFile sh s file (Inr refs) now =
           (case checkFileTypes sh s (plannedDiffs commit (fixPath (pf_Path file)) refs now) of
              Some e \<Rightarrow> (Some e, s)
            | None \<Rightarrow>
                (case insertDiffs (diffTable s)
                        (plannedDiffs commit (fixPath (pf_Path file)) refs now) of
                   (e, table) \<Rightarrow> (e, s\<lparr>diffTable := table\<rparr>)))"
  using assms by (simp add: PutFile_def Let_def)

lemma PutFile_success:
  assumes "getCommitByAmbiguousID s (pc_Repo (pf_Commit file)) (pc_ID (pf_Commit file)) = Inr commit"
      and "PutFile sh s file (Inr refs) now = (None, s')"
  shows "insertDiffs (diffTable s) (plannedDiffs commit (fixPath (pf_Path file)) refs now)
           = (None, diffTable s')"
  using assms(2) unfolding PutFile_resolved [OF assms(1)]
  by (auto split: option.splits prod.splits)

lemma PutFile_conflict_error:
  assumes r: "getCommitByAmbiguousID s (pc_Repo (pf_Commit file)) (pc_ID (pf_Commit file))
              = Inr commit"
      and n: "new \<in> set (plannedDiffs commit (fixPath (pf_Path file)) refs now)"
      and o: "getDiff (diffTable s) (diff_ID new) = Some old"
      and c: "diff_FileType old \<noteq> FileType_NONE" "diff_FileType old \<noteq> diff_FileType new"
  shows "\<exists>e. fst (PutFile sh s file (Inr refs) now) = Some e"
    and "checkFileTypes sh s (plannedDiffs commit (fixPath (pf_Path file)) refs now) = None \<Longrightarrow>
         fst (PutFile sh s file (Inr refs) now) = Some ErrConflictFileType"
proof -
  let ?ds = "plannedDiffs commit (fixPath (pf_Path file)) refs now"
  obtain cs where "fixPath (pf_Path file) = CHR ''/'' # cs"
    using fixPath_starts_with_slash by blast
  then have dist: "distinct (map diff_ID ?ds)" by (rule distinct_plannedDiffs)
  obtain e t where i: "insertDiffs (diffTable s) ?ds = (e, t)"
    by (cases "insertDiffs (diffTable s) ?ds")
  have "e \<noteq> None"
  proof
    assume "e = None"
    with i have "insertDiffs (diffTable s) ?ds = (None, t)" by simp
    from insertDiffs_old_compatible [OF this dist n o] c show False by simp
  qed
  then obtain x where x: "e = Some x" by (cases e) auto
  with i insertDiffs_error have xe: "x = ErrConflictFileType" by blast
  show "\<exists>e. fst (PutFile sh s file (Inr refs) now) = Some e"
    unfolding PutFile_resolved [OF r] using i x by (auto split: option.splits)
  show "fst (PutFile sh s file (Inr refs) now) = Some ErrConflictFileType"
    if "checkFileTypes sh s ?ds = None"
    unfolding PutFile_resolved [OF r] using i x xe that by simp
qed

lemma PutFile_merge_stored:
  assumes r: "getCommitByAmbiguousID s (pc_Repo (pf_Commit file)) (pc_ID (pf_Commit file))
              = Inr commit"
      and n: "new \<in> set (plannedDiffs commit (fixPath (pf_Path file)) refs now)"
      and o: "getDiff (diffTable s) (diff_ID new) = Some old"
      and p: "PutFile sh s file (Inr refs) now = (None, s')"
  shows "getDiff (diffTable s') (diff_ID new) =
           Some (old\<lparr>diff_BlockRefs := diff_BlockRefs old @ diff_BlockRefs new,
                     diff_Size := diff_Size old + diff_Size new,
                     diff_FileType := diff_FileType new,
                     diff_Modified := diff_Modified new\<rparr>)"
proof -
  let ?ds = "plannedDiffs commit (fixPath (pf_Path file)) refs now"
  obtain cs where "fixPath (pf_Path file) = CHR ''/'' # cs"
    using fixPath_starts_with_slash by blast
  then have dist: "distinct (map diff_ID ?ds)" by (rule distinct_plannedDiffs)
  have i: "insertDiffs (diffTable s) ?ds = (None, diffTable s')"
    by (rule PutFile_success [OF r p])
  from insertDiffs_same_key [OF i dist n] o show ?thesis by simp
qed

text \<open>
  C5. Let \<^verbatim>\<open>PutFile\<close> plan the diff \<open>new\<close> for a path at which the commit already has the
  diff \<open>old\<close> stored under the same id. If the file type of \<open>old\<close> is neither \<^verbatim>\<open>NONE\<close> nor
  that of \<open>new\<close>, the upsert of \<open>new\<close> raises the file type conflict and leaves the table as
  it is, and \<^verbatim>\<open>PutFile\<close> returns an error: the file type conflict, whenever the checks before
  the insert have passed. Otherwise the upsert stores the merge, and a \<^verbatim>\<open>PutFile\<close> that
  succeeds leaves under that id the old diff with block refs \<open>old @ new\<close>, size
  \<open>old + new\<close>, and file type and modification time of \<open>new\<close>.
\<close>

theorem PutFile_upsert:
  assumes "getCommitByAmbiguousID s (pc_Repo (pf_Commit file)) (pc_ID (pf_Commit file))
           = Inr commit"
      and "new \<in> set (plannedDiffs commit (fixPath (pf_Path file)) refs now)"
      and "getDiff (diffTable s) (diff_ID new) = Some old"
  shows "(if diff_FileType old \<noteq> FileType_NONE \<and> diff_FileType old \<noteq> diff_FileType new
          then insertDiff (diffTable s) new = (Some ErrConflictFileType, diffTable s) \<and>
               (\<exists>e. fst (PutFile sh s file (Inr refs) now) = Some e) \<and>
               (checkFileTypes sh s (plannedDiffs commit (fixPath (pf_Path file)) refs now) = None
                  \<longrightarrow> fst (PutFile sh s file (Inr refs) now) = Some ErrConflictFileType)
          else getDiff (snd (insertDiff (diffTable s) new)) (diff_ID new) =
                 Some (old\<lparr>diff_BlockRefs := diff_BlockRefs old @ diff_BlockRefs new,
                           diff_Size := diff_Size old + diff_Size new,
                           diff_FileType := diff_FileType new,
                           diff_Modified := diff_Modified new\<rparr>) \<and>
               fst (insertDiff (diffTable s) new) = None \<and>
               (\<forall>s'. PutFile sh s file (Inr refs) now = (None, s') \<longrightarrow>
                  getDiff (diffTable s') (diff_ID new) =
                    Some (old\<lparr>diff_BlockRefs := diff_BlockRefs old @ diff_BlockRefs new,
                              diff_Size := diff_Size old + diff_Size new,
                              diff_FileType := diff_FileType new,
                              diff_Modified := diff_Modified new\<rparr>)))"
proof (cases "diff_FileType old \<noteq> FileType_NONE \<and> diff_FileType old \<noteq> diff_FileType new")
  case True
  then have c: "diff_FileType old \<noteq> FileType_NONE" "diff_FileType old \<noteq> diff_FileType new"
    by simp_all
  have "insertDiff (diffTable s) new = (Some ErrConflictFileType, diffTable s)"
    by (rule insertDiff_conflict [OF assms(3) c])
  moreover note PutFile_conflict_error(1) [OF assms c, of sh]
  moreover note PutFile_conflict_error(2) [OF assms c, of sh]
  ultimately show ?thesis
    unfolding if_P [OF True] by blast
next
  case False
  then have c: "diff_FileType old = FileType_NONE \<or> diff_FileType old = diff_FileType new"
    by blast
  let ?m = "old\<lparr>diff_BlockRefs := diff_BlockRefs old @ diff_BlockRefs new,
                           diff_Size := diff_Size old + diff_Size new,
                           diff_FileType := diff_FileType new,
                           diff_Modified := diff_Modified new\<rparr>"
  obtain t where i: "insertDiff (diffTable s) new = (None, t)"
    using insertDiff_merge [OF assms(3) c] by blast
  from insertDiff_same_key [OF i] assms(3)
  have "getDiff (snd (insertDiff (diffTable s) new)) (diff_ID new) = Some ?m"
    by (simp add: i)
  moreover have "fst (insertDiff (diffTable s) new) = None"
    by (simp add: i)
  moreover have "\<forall>s'. PutFile sh s file (Inr refs) now = (None, s') \<longrightarrow>
                  getDiff (diffTable s') (diff_ID new) = Some ?m"
    using PutFile_merge_stored [OF assms] by blast
  ultimately show ?thesis
    unfolding if_not_P [OF False] by blast
qed

theorem PutFile_upsert_witness:
  "(\<exists>s'. PutFile noSharding store0 (fileAt ''c1'' ''/a'') (Inr refs9) nowFrom10 = (None, s') \<and>
         getDiff (diffTable store0) ''c1:/a'' = Some (fileDiff ''c1'' 1 ''/a'' ''h1'' 5) \<and>
         getDiff (diffTable s') ''c1:/a''
           = Some ((fileDiff ''c1'' 1 ''/a'' ''h1'' 5)
                     \<lparr>diff_BlockRefs := [\<lparr>ref_Hash = ''h1'', ref_Lower = 0, ref_Upper = 5\<rparr>,
                                          \<lparr>ref_Hash = ''h9'', ref_Lower = 2, ref_Upper = 5\<rparr>],
                      diff_Size := 8, diff_FileType := FileType_FILE,
                      diff_Modified := Some 10\<rparr>)) \<and>
   insertDiff (diffTable store0) (dirDiff commitB 10 ''/a'')
     = (Some ErrConflictFileType, diffTable store0) \<and>
   fst (PutFile noSharding store0 (fileAt ''c1'' ''/a/x'') (Inr refs9) nowFrom10)
     = Some ErrConflictFileType"
proof -
  let ?old = "fileDiff ''c1'' 1 ''/a'' ''h1'' 5"
  let ?new = "leafDiff commitB 10 ''/a'' refs9"
  let ?dir = "dirDiff commitB 10 ''/a''"
  have r: "getCommitByAmbiguousID store0 (pc_Repo (pf_Commit (fileAt ''c1'' p)))
             (pc_ID (pf_Commit (fileAt ''c1'' p))) = Inr commitB" for p
    by (simp add: fileAt_def store0_resolve_c1)
  have n: "?new \<in> set (plannedDiffs commitB (fixPath (pf_Path (fileAt ''c1'' ''/a''))) refs9
                         nowFrom10)"
    by code_simp
  have o: "getDiff (diffTable store0) (diff_ID ?new) = Some ?old"
    by code_simp
  have c: "\<not> (diff_FileType ?old \<noteq> FileType_NONE \<and> diff_FileType ?old \<noteq> diff_FileType ?new)"
    by code_simp
  have k: "diff_ID ?new = ''c1:/a''"
    by code_simp
  have m: "?old\<lparr>diff_BlockRefs := diff_BlockRefs ?old @ diff_BlockRefs ?new,
                 diff_Size := diff_Size ?old + diff_Size ?new,
                 diff_FileType := diff_FileType ?new,
                 diff_Modified := diff_Modified ?new\<rparr>
           = ?old\<lparr>diff_BlockRefs := [\<lparr>ref_Hash = ''h1'', ref_Lower = 0, ref_Upper = 5\<rparr>,
                                      \<lparr>ref_Hash = ''h9'', ref_Lower = 2, ref_Upper = 5\<rparr>],
                   diff_Size := 8, diff_FileType := FileType_FILE,
                   diff_Modified := Some 10\<rparr>"
    by code_simp
  have f: "fst (PutFile noSharding store0 (fileAt ''c1'' ''/a'') (Inr refs9) nowFrom10) = None"
    by code_simp
  then obtain s' where p:
    "PutFile noSharding store0 (fileAt ''c1'' ''/a'') (Inr refs9) nowFrom10 = (None, s')"
    by (cases "PutFile noSharding store0 (fileAt ''c1'' ''/a'') (Inr refs9) nowFrom10") simp
  have "getDiff (diffTable s') (diff_ID ?new) =
          Some (?old\<lparr>diff_BlockRefs := diff_BlockRefs ?old @ diff_BlockRefs ?new,
                 diff_Size := diff_Size ?old + diff_Size ?new,
                 diff_FileType := diff_FileType ?new,
                 diff_Modified := diff_Modified ?new\<rparr>)"
    using PutFile_upsert [OF r n o, of noSharding] p unfolding if_not_P [OF c] by blast
  then have a: "getDiff (diffTable s') ''c1:/a''
           = Some (?old\<lparr>diff_BlockRefs := [\<lparr>ref_Hash = ''h1'', ref_Lower = 0, ref_Upper = 5\<rparr>,
                                      \<lparr>ref_Hash = ''h9'', ref_Lower = 2, ref_Upper = 5\<rparr>],
                   diff_Size := 8, diff_FileType := FileType_FILE,
                   diff_Modified := Some 10\<rparr>)"
    unfolding k m .
  have o': "getDiff (diffTable store0) ''c1:/a'' = Some ?old"
    using o unfolding k .
  have n2: "?dir \<in> set (plannedDiffs commitB (fixPath (pf_Path (fileAt ''c1'' ''/a/x''))) refs9
                         nowFrom10)"
    by code_simp
  have o2: "getDiff (diffTable store0) (diff_ID ?dir) = Some ?old"
    by code_simp
  have c2: "diff_FileType ?old \<noteq> FileType_NONE \<and> diff_FileType ?old \<noteq> diff_FileType ?dir"
    by code_simp
  have e: "fst (PutFile noSharding store0 (fileAt ''c1'' ''/a/x'') (Inr refs9) nowFrom10)
           = Some ErrConflictFileType"
    by code_simp
  have i: "insertDiff (diffTable store0) ?dir = (Some ErrConflictFileType, diffTable store0)"
    using PutFile_upsert [OF r n2 o2, of noSharding] unfolding if_P [OF c2] by blast
  show ?thesis
    using p o' a i e by blast
qed

section \<open>Directory diffs of a commit\<close>

lemma getDiffID_inj2:
  "CHR '':'' \<notin> set c \<Longrightarrow> CHR '':'' \<notin> set c' \<Longrightarrow> getDiffID c p = getDiffID c' p' \<Longrightarrow>
   c = c' \<and> p = p'"
proof (induction c arbitrary: c')
  case Nil
  then show ?case by (cases c') (auto simp: getDiffID_def)
next
  case (Cons a as)
  show ?case
  proof (cases c')
    case Nil
    with Cons.prems show ?thesis by (auto simp: getDiffID_def)
  next
    case (Cons b bs)
    with Cons.prems have "a = b" "getDiffID as p = getDiffID bs p'"
      "CHR '':'' \<notin> set as" "CHR '':'' \<notin> set bs"
      by (auto simp: getDiffID_def)
    with Cons.IH [of bs] Cons show ?thesis by simp
  qed
qed

lemma keyed_same_id:
  assumes "keyed table" "d \<in> set table" "d' \<in> set table" "diff_ID d = diff_ID d'"
  shows "d = d'"
proof -
  from assms(1) have "inj_on diff_ID (set table)"
    by (simp add: keyed_def distinct_map)
  with assms(2-4) show ?thesis by (auto dest: inj_onD)
qed

lemma keyed_id_determines:
  assumes "keyed table" "d \<in> set table" "diff_ID d = getDiffID cid p" "CHR '':'' \<notin> set cid"
  shows "diff_CommitID d = cid \<and> diff_Path d = p"
proof -
  from assms(1,2) have "diff_ID d = getDiffID (diff_CommitID d) (diff_Path d)"
    "CHR '':'' \<notin> set (diff_CommitID d)"
    by (auto simp: keyed_def)
  with assms(3,4) show ?thesis
    using getDiffID_inj2 [of "diff_CommitID d" cid "diff_Path d" p] by simp
qed

lemma insertDiff_keyed:
  assumes i: "insertDiff table n = (None, table1)"
      and k: "keyed table"
      and n: "diff_ID n = getDiffID (diff_CommitID n) (diff_Path n)"
             "CHR '':'' \<notin> set (diff_CommitID n)"
  shows "keyed table1"
  using i
proof (cases rule: insertDiff_cases)
  case fresh
  have "diff_ID n \<notin> diff_ID ` set table"
    using getDiff_None [OF fresh(1)] by (metis imageE)
  with k have d: "distinct (map diff_ID (table @ [n]))"
    by (simp add: keyed_def)
  have f: "\<forall>d \<in> set (table @ [n]).
          diff_ID d = getDiffID (diff_CommitID d) (diff_Path d) \<and>
          CHR '':'' \<notin> set (diff_CommitID d)"
    using k n by (simp add: keyed_def)
  show ?thesis
    unfolding fresh(2) keyed_def using d f by blast
next
  case (merged old)
  have o: "old \<in> set table" "diff_ID old = diff_ID n"
    using getDiff_Some [OF merged(1)] by simp_all
  define m where "m = old\<lparr>diff_BlockRefs := diff_BlockRefs old @ diff_BlockRefs n,
                 diff_Size := diff_Size old + diff_Size n,
                 diff_FileType := diff_FileType n,
                 diff_Modified := diff_Modified n\<rparr>"
  have mo: "diff_ID m = diff_ID old" "diff_CommitID m = diff_CommitID old"
    "diff_Path m = diff_Path old"
    by (simp_all add: m_def)
  have t1: "table1 = map (\<lambda>d. if diff_ID d = diff_ID n then m else d) table"
    using merged(3) by (simp add: m_def)
  have ids: "map diff_ID (map (\<lambda>d. if diff_ID d = diff_ID n then m else d) xs)
             = map diff_ID xs" for xs
    using o(2) mo(1) by (induction xs) simp_all
  have old_ok: "diff_ID old = getDiffID (diff_CommitID old) (diff_Path old)"
    "CHR '':'' \<notin> set (diff_CommitID old)"
    using k o(1) by (simp_all add: keyed_def)
  have f: "\<forall>d \<in> set table1.
          diff_ID d = getDiffID (diff_CommitID d) (diff_Path d) \<and>
          CHR '':'' \<notin> set (diff_CommitID d)"
  proof
    fix d
    assume "d \<in> set table1"
    then obtain x where x: "x \<in> set table" "d = (if diff_ID x = diff_ID n then m else x)"
      unfolding t1 by auto
    show "diff_ID d = getDiffID (diff_CommitID d) (diff_Path d) \<and>
          CHR '':'' \<notin> set (diff_CommitID d)"
    proof (cases "diff_ID x = diff_ID n")
      case True
      with x(2) have "d = m" by simp
      with old_ok mo show ?thesis by simp
    next
      case False
      with x(2) have "d = x" by simp
      with k x(1) show ?thesis by (simp add: keyed_def)
    qed
  qed
  have "distinct (map diff_ID table1)"
    unfolding t1 ids using k by (simp add: keyed_def)
  with f show ?thesis
    unfolding keyed_def by blast
qed

lemma insertDiff_keeps_typed:
  assumes i: "insertDiff table n = (None, table1)"
      and k: "keyed table"
      and d: "d \<in> set table" "diff_FileType d \<noteq> FileType_NONE"
  shows "\<exists>d' \<in> set table1. diff_CommitID d' = diff_CommitID d \<and> diff_Path d' = diff_Path d \<and>
                             diff_FileType d' = diff_FileType d"
  using i
proof (cases rule: insertDiff_cases)
  case fresh
  with d(1) show ?thesis by auto
next
  case (merged old)
  have o: "old \<in> set table" "diff_ID old = diff_ID n"
    using getDiff_Some [OF merged(1)] by simp_all
  let ?m = "old\<lparr>diff_BlockRefs := diff_BlockRefs old @ diff_BlockRefs n,
                 diff_Size := diff_Size old + diff_Size n,
                 diff_FileType := diff_FileType n,
                 diff_Modified := diff_Modified n\<rparr>"
  show ?thesis
  proof (cases "diff_ID d = diff_ID n")
    case True
    with o have "d = old" using keyed_same_id [OF k d(1) o(1)] by simp
    with d(2) merged(2) have t: "diff_FileType n = diff_FileType d" by auto
    have "?m \<in> set table1" using merged(3) d(1) True by force
    moreover have "diff_CommitID ?m = diff_CommitID d" "diff_Path ?m = diff_Path d"
      "diff_FileType ?m = diff_FileType d"
      using \<open>d = old\<close> t by simp_all
    ultimately show ?thesis by blast
  next
    case False
    with merged(3) d(1) have "d \<in> set table1" by force
    then show ?thesis by blast
  qed
qed

lemma insertDiff_keeps_dirAt:
  assumes "insertDiff table n = (None, table1)" "keyed table" "dirAt table cid p"
  shows "dirAt table1 cid p"
proof -
  from assms(3) obtain d where d: "d \<in> set table" "diff_CommitID d = cid" "diff_Path d = p"
    "diff_FileType d = FileType_DIR"
    by (auto simp: dirAt_def)
  then have "diff_FileType d \<noteq> FileType_NONE" by simp
  from insertDiff_keeps_typed [OF assms(1,2) d(1) this] d show ?thesis
    by (auto simp: dirAt_def)
qed

lemma insertDiff_stores_new:
  assumes i: "insertDiff table n = (None, table1)"
      and k: "keyed table"
      and n: "diff_ID n = getDiffID (diff_CommitID n) (diff_Path n)"
             "CHR '':'' \<notin> set (diff_CommitID n)"
  shows "\<exists>d' \<in> set table1. diff_CommitID d' = diff_CommitID n \<and> diff_Path d' = diff_Path n \<and>
                             diff_FileType d' = diff_FileType n"
  using i
proof (cases rule: insertDiff_cases)
  case fresh
  then show ?thesis by auto
next
  case (merged old)
  have o: "old \<in> set table" "diff_ID old = diff_ID n"
    using getDiff_Some [OF merged(1)] by simp_all
  let ?m = "old\<lparr>diff_BlockRefs := diff_BlockRefs old @ diff_BlockRefs n,
                 diff_Size := diff_Size old + diff_Size n,
                 diff_FileType := diff_FileType n,
                 diff_Modified := diff_Modified n\<rparr>"
  have c: "diff_CommitID old = diff_CommitID n \<and> diff_Path old = diff_Path n"
    using keyed_id_determines [OF k o(1) _ n(2)] o(2) n(1) by simp
  have m: "?m \<in> set table1" using merged(3) o by force
  show ?thesis by (rule bexI [OF _ m]) (simp add: c)
qed

lemma insertDiff_origin:
  assumes i: "insertDiff table n = (None, table1)"
      and k: "keyed table"
      and n: "diff_ID n = getDiffID (diff_CommitID n) (diff_Path n)"
             "CHR '':'' \<notin> set (diff_CommitID n)"
      and d: "d' \<in> set table1"
  shows "d' \<in> set table \<or>
         (diff_CommitID d' = diff_CommitID n \<and> diff_Path d' = diff_Path n \<and>
          diff_FileType d' = diff_FileType n)"
  using i
proof (cases rule: insertDiff_cases)
  case fresh
  with d show ?thesis by auto
next
  case (merged old)
  have o: "old \<in> set table" "diff_ID old = diff_ID n"
    using getDiff_Some [OF merged(1)] by simp_all
  have c: "diff_CommitID old = diff_CommitID n \<and> diff_Path old = diff_Path n"
    using keyed_id_determines [OF k o(1) _ n(2)] o(2) n(1) by simp
  let ?m = "old\<lparr>diff_BlockRefs := diff_BlockRefs old @ diff_BlockRefs n,
                 diff_Size := diff_Size old + diff_Size n,
                 diff_FileType := diff_FileType n,
                 diff_Modified := diff_Modified n\<rparr>"
  from d merged(3) have "d' \<in> set table \<or> d' = ?m" by auto
  with c show ?thesis by auto
qed

lemma insertDiff_dir_step:
  assumes i: "insertDiff table n = (None, table1)"
      and k: "keyed table"
      and n: "diff_ID n = getDiffID (diff_CommitID n) (diff_Path n)"
             "CHR '':'' \<notin> set (diff_CommitID n)"
             "diff_FileType n = FileType_DIR"
      and c: "dirsCovered anc table cid"
  shows "dirsCovered anc table1 cid"
  unfolding dirsCovered_def
proof (intro ballI impI)
  fix d p
  assume d: "d \<in> set table1" "diff_CommitID d = cid \<and> diff_FileType d = FileType_FILE"
    and p: "p \<in> set (anc (diff_Path d))"
  from insertDiff_origin [OF i k n(1,2) d(1)] d(2) n(3) have "d \<in> set table" by auto
  with c d(2) p have "dirAt table cid p" by (auto simp: dirsCovered_def)
  then show "dirAt table1 cid p" by (rule insertDiff_keeps_dirAt [OF i k])
qed

lemma insertDiff_leaf_step:
  assumes i: "insertDiff table n = (None, table1)"
      and k: "keyed table"
      and n: "diff_ID n = getDiffID (diff_CommitID n) (diff_Path n)"
             "CHR '':'' \<notin> set (diff_CommitID n)"
             "diff_CommitID n = cid"
      and a: "\<forall>p \<in> set (anc (diff_Path n)). dirAt table cid p"
      and c: "dirsCovered anc table cid"
  shows "dirsCovered anc table1 cid"
  unfolding dirsCovered_def
proof (intro ballI impI)
  fix d p
  assume d: "d \<in> set table1" "diff_CommitID d = cid \<and> diff_FileType d = FileType_FILE"
    and p: "p \<in> set (anc (diff_Path d))"
  from insertDiff_origin [OF i k n(1,2) d(1)]
  have "dirAt table cid p"
  proof
    assume "d \<in> set table"
    with c d(2) p show ?thesis by (auto simp: dirsCovered_def)
  next
    assume "diff_CommitID d = diff_CommitID n \<and> diff_Path d = diff_Path n \<and>
            diff_FileType d = diff_FileType n"
    with a p show ?thesis by simp
  qed
  then show "dirAt table1 cid p" by (rule insertDiff_keeps_dirAt [OF i k])
qed

lemma insertDiffs_dirs:
  "insertDiffs table ds = (None, table1) \<Longrightarrow> keyed table \<Longrightarrow> CHR '':'' \<notin> set cid \<Longrightarrow>
   (\<forall>n \<in> set ds. diff_ID n = getDiffID cid (diff_Path n) \<and> diff_CommitID n = cid \<and>
                    diff_FileType n = FileType_DIR) \<Longrightarrow>
   dirsCovered anc table cid \<Longrightarrow>
   keyed table1 \<and> dirsCovered anc table1 cid \<and>
   (\<forall>n \<in> set ds. dirAt table1 cid (diff_Path n)) \<and>
   (\<forall>p. dirAt table cid p \<longrightarrow> dirAt table1 cid p)"
proof (induction ds arbitrary: table)
  case Nil
  then show ?case by simp
next
  case (Cons n ds)
  from Cons.prems(1) obtain t1 where a: "insertDiff table n = (None, t1)"
    and b: "insertDiffs t1 ds = (None, table1)"
    by (rule insertDiffs_Cons_success)
  from Cons.prems(4) have n: "diff_ID n = getDiffID (diff_CommitID n) (diff_Path n)"
    "CHR '':'' \<notin> set (diff_CommitID n)" "diff_FileType n = FileType_DIR"
    "diff_CommitID n = cid"
    using Cons.prems(3) by auto
  have k1: "keyed t1" by (rule insertDiff_keyed [OF a Cons.prems(2) n(1,2)])
  have c1: "dirsCovered anc t1 cid"
    by (rule insertDiff_dir_step [OF a Cons.prems(2) n(1,2,3) Cons.prems(5)])
  have rest: "\<forall>n \<in> set ds. diff_ID n = getDiffID cid (diff_Path n) \<and> diff_CommitID n = cid \<and>
                    diff_FileType n = FileType_DIR"
    using Cons.prems(4) by simp
  from Cons.IH [OF b k1 Cons.prems(3) rest c1]
  have ih: "keyed table1" "dirsCovered anc table1 cid"
    "\<forall>n \<in> set ds. dirAt table1 cid (diff_Path n)"
    "\<forall>p. dirAt t1 cid p \<longrightarrow> dirAt table1 cid p"
    by blast+
  have "dirAt t1 cid (diff_Path n)"
    using insertDiff_stores_new [OF a Cons.prems(2) n(1,2)] n(3,4) by (auto simp: dirAt_def)
  with ih(4) have here: "dirAt table1 cid (diff_Path n)" by blast
  have keep: "\<forall>p. dirAt table cid p \<longrightarrow> dirAt table1 cid p"
    using insertDiff_keeps_dirAt [OF a Cons.prems(2)] ih(4) by blast
  from ih(1,2,3) here keep show ?case by simp
qed

section \<open>Prefixes and ancestor paths\<close>

lemma upt_from_one: "[Suc 0 ..< Suc (Suc n)] = Suc 0 # map Suc [Suc 0 ..< Suc n]"
proof -
  have "[Suc 0 ..< Suc (Suc n)] = Suc 0 # [Suc (Suc 0) ..< Suc (Suc n)]"
    by (rule upt_conv_Cons) simp
  then show ?thesis
    by (simp only: map_Suc_upt)
qed

lemma prefixesLoop_nonempty_parts:
  "(\<forall>q \<in> set qs. q \<noteq> []) \<Longrightarrow>
   prefixesLoop pre qs
   = map (\<lambda>k. pre @ concat (map (\<lambda>q. CHR ''/'' # q) (take k qs))) [Suc 0 ..< Suc (length qs)]"
proof (induction qs arbitrary: pre)
  case Nil
  then show ?case by simp
next
  case (Cons q rest)
  have q: "q \<noteq> []" and r: "\<forall>x \<in> set rest. x \<noteq> []"
    using Cons.prems by simp_all
  have "prefixesLoop pre (q # rest)
        = (pre @ CHR ''/'' # q) # prefixesLoop (pre @ CHR ''/'' # q) rest"
    using q by simp
  also have "\<dots> = (pre @ CHR ''/'' # q)
        # map (\<lambda>k. (pre @ CHR ''/'' # q) @ concat (map (\<lambda>q. CHR ''/'' # q) (take k rest)))
            [Suc 0 ..< Suc (length rest)]"
    by (simp only: Cons.IH [OF r])
  also have "\<dots> = map (\<lambda>k. pre @ concat (map (\<lambda>q. CHR ''/'' # q) (take k (q # rest))))
                      (Suc 0 # map Suc [Suc 0 ..< Suc (length rest)])"
    by (simp del: upt_Suc)
  also have "\<dots> = map (\<lambda>k. pre @ concat (map (\<lambda>q. CHR ''/'' # q) (take k (q # rest))))
                      [Suc 0 ..< Suc (length (q # rest))]"
    by (simp only: upt_from_one list.size add_Suc_right add_0_right One_nat_def)
  finally show ?case .
qed

lemma getPrefixes_ancestorPaths:
  assumes "path = CHR ''/'' # cs" and "\<forall>q \<in> set (butlast (splitSlash cs)). q \<noteq> []"
  shows "getPrefixes path = ancestorPaths path"
proof -
  let ?parts = "splitSlash cs"
  have ne: "?parts \<noteq> []" by (rule splitSlash_not_Nil)
  have g: "getPrefixes path = prefixesLoop [] (butlast ?parts)"
    using assms(1) ne by (simp add: getPrefixes_def)
  have l: "Suc (length (butlast ?parts)) = length ?parts"
    using ne by simp
  have "getPrefixes path
        = map (\<lambda>k. [] @ concat (map (\<lambda>q. CHR ''/'' # q) (take k (butlast ?parts))))
            [Suc 0 ..< length ?parts]"
    by (simp only: g prefixesLoop_nonempty_parts [OF assms(2)] l)
  also have "\<dots> = map (\<lambda>k. concat (map (\<lambda>q. CHR ''/'' # q) (take k ?parts)))
                      [Suc 0 ..< length ?parts]"
    by (rule map_cong [OF refl]) (simp add: take_butlast)
  also have "\<dots> = ancestorPaths path"
    using assms(1) by (simp add: ancestorPaths_def Let_def)
  finally show ?thesis .
qed

lemma plannedDiffs_split:
  "plannedDiffs commit path refs now
   = map (\<lambda>i. dirDiff commit (now i) (getPrefixes path ! i)) [0 ..< length (getPrefixes path)]
     @ [leafDiff commit (now (length (getPrefixes path))) path refs]"
  by (simp add: plannedDiffs_def Let_def)

lemma PutFile_invariant:
  assumes r: "getCommitByAmbiguousID s (pc_Repo (pf_Commit file)) (pc_ID (pf_Commit file))
              = Inr commit"
      and p: "PutFile sh s file (Inr refs) now = (None, s')"
      and k: "keyed (diffTable s)"
      and c: "CHR '':'' \<notin> set (commit_ID commit)"
      and i: "dirsCovered getPrefixes (diffTable s) (commit_ID commit)"
  shows "dirsCovered getPrefixes (diffTable s') (commit_ID commit)"
    and "keyed (diffTable s')"
    and "\<exists>d \<in> set (diffTable s'). diff_CommitID d = commit_ID commit \<and>
            diff_Path d = fixPath (pf_Path file) \<and> diff_FileType d = FileType_FILE"
    and "\<forall>q \<in> set (getPrefixes (fixPath (pf_Path file))).
            dirAt (diffTable s') (commit_ID commit) q"
proof -
  let ?path = "fixPath (pf_Path file)"
  let ?cid = "commit_ID commit"
  let ?dirs = "map (\<lambda>i. dirDiff commit (now i) (getPrefixes ?path ! i))
                 [0 ..< length (getPrefixes ?path)]"
  let ?leaf = "leafDiff commit (now (length (getPrefixes ?path))) ?path refs"
  have "insertDiffs (diffTable s) (?dirs @ [?leaf]) = (None, diffTable s')"
    using PutFile_success [OF r p] by (simp only: plannedDiffs_split)
  then obtain t1 where d: "insertDiffs (diffTable s) ?dirs = (None, t1)"
    and l0: "insertDiffs t1 [?leaf] = (None, diffTable s')"
    using insertDiffs_append_success by blast
  from l0 have l: "insertDiff t1 ?leaf = (None, diffTable s')"
    by (auto split: prod.splits option.splits)
  have form: "\<forall>n \<in> set ?dirs. diff_ID n = getDiffID ?cid (diff_Path n) \<and>
                 diff_CommitID n = ?cid \<and> diff_FileType n = FileType_DIR"
    by (auto simp: dirDiff_def)
  from insertDiffs_dirs [OF d k c form i]
  have k1: "keyed t1" and c1: "dirsCovered getPrefixes t1 ?cid"
    and a1: "\<forall>n \<in> set ?dirs. dirAt t1 ?cid (diff_Path n)"
    by blast+
  have a2: "\<forall>q \<in> set (getPrefixes ?path). dirAt t1 ?cid q"
  proof
    fix q
    assume "q \<in> set (getPrefixes ?path)"
    then obtain j where j: "j < length (getPrefixes ?path)" "getPrefixes ?path ! j = q"
      by (auto simp: in_set_conv_nth)
    then have "dirDiff commit (now j) q \<in> set ?dirs" by auto
    with a1 have "dirAt t1 ?cid (diff_Path (dirDiff commit (now j) q))" by blast
    then show "dirAt t1 ?cid q" by (simp add: dirDiff_def)
  qed
  have lf: "diff_ID ?leaf = getDiffID (diff_CommitID ?leaf) (diff_Path ?leaf)"
    "CHR '':'' \<notin> set (diff_CommitID ?leaf)" "diff_CommitID ?leaf = ?cid"
    "diff_Path ?leaf = ?path" "diff_FileType ?leaf = FileType_FILE"
    using c by (simp_all add: leafDiff_def)
  have a3: "\<forall>q \<in> set (getPrefixes (diff_Path ?leaf)). dirAt t1 ?cid q"
    using a2 lf(4) by simp
  show "dirsCovered getPrefixes (diffTable s') ?cid"
    by (rule insertDiff_leaf_step [OF l k1 lf(1,2,3) a3 c1])
  show "keyed (diffTable s')"
    by (rule insertDiff_keyed [OF l k1 lf(1,2)])
  show "\<exists>d \<in> set (diffTable s'). diff_CommitID d = ?cid \<and> diff_Path d = ?path \<and>
            diff_FileType d = FileType_FILE"
    using insertDiff_stores_new [OF l k1 lf(1,2)] lf(3,4,5) by simp
  show "\<forall>q \<in> set (getPrefixes ?path). dirAt (diffTable s') ?cid q"
    using a2 insertDiff_keeps_dirAt [OF l k1] by blast
qed

text \<open>
  C9, as the claim states it, fails: \<^verbatim>\<open>getPrefixes\<close> skips empty path components. Putting
  \<^verbatim>\<open>/d//e/f\<close> into commit \<^verbatim>\<open>c1\<close> of the example store succeeds and writes directory diffs
  at \<^verbatim>\<open>/d\<close> and \<^verbatim>\<open>/d/e\<close>; the strict ancestor paths \<^verbatim>\<open>/d/\<close> and \<^verbatim>\<open>/d//e\<close> of the new leaf get
  none, so the invariant over ancestor paths holds before the call and not after it.
\<close>

theorem PutFile_empty_component_counterexample:
  "fst (PutFile noSharding store0 (fileAt ''c1'' ''/d//e/f'') (Inr refs9) nowFrom10) = None \<and>
   ancestorPaths ''/d//e/f'' = [''/d'', ''/d/'', ''/d//e''] \<and>
   map (\<lambda>d. (diff_CommitID d, diff_Path d, diff_FileType d))
     (diffTable (snd (PutFile noSharding store0 (fileAt ''c1'' ''/d//e/f'') (Inr refs9) nowFrom10)))
   = [(''c0'', ''/a'', FileType_FILE), (''c1'', ''/a'', FileType_FILE),
      (''c1'', ''/b'', FileType_FILE), (''c1'', ''/d'', FileType_DIR),
      (''c1'', ''/d/e'', FileType_DIR), (''c1'', ''/d//e/f'', FileType_FILE)] \<and>
   dirsCovered ancestorPaths (diffTable store0) ''c1'' \<and>
   \<not> dirsCovered ancestorPaths
       (diffTable (snd (PutFile noSharding store0 (fileAt ''c1'' ''/d//e/f'') (Inr refs9)
                          nowFrom10))) ''c1''"
  by code_simp

text \<open>
  C9, amended. On a keyed diff table, after a successful \<^verbatim>\<open>PutFile\<close> of a path into a commit
  whose id has no colon, the diffs of that commit satisfy: for every path with a leaf
  \<^verbatim>\<open>FILE\<close> diff, every path that \<^verbatim>\<open>getPrefixes\<close> builds from its non-empty components is
  covered by a \<^verbatim>\<open>DIR\<close> diff in the same commit, provided this held before the call; the path
  just put has its \<^verbatim>\<open>FILE\<close> diff and the \<^verbatim>\<open>DIR\<close> diffs of all its prefixes, and the table stays
  keyed. For a path that starts with the separator and has no empty component before its
  last one, these prefixes are exactly its strict ancestor paths.
\<close>

theorem PutFile_dirs_covered:
  assumes "getCommitByAmbiguousID s (pc_Repo (pf_Commit file)) (pc_ID (pf_Commit file))
           = Inr commit"
      and "PutFile sh s file (Inr refs) now = (None, s')"
      and "keyed (diffTable s)"
      and "CHR '':'' \<notin> set (commit_ID commit)"
      and "dirsCovered getPrefixes (diffTable s) (commit_ID commit)"
  shows "dirsCovered getPrefixes (diffTable s') (commit_ID commit) \<and>
         keyed (diffTable s') \<and>
         (\<exists>d \<in> set (diffTable s'). diff_CommitID d = commit_ID commit \<and>
            diff_Path d = fixPath (pf_Path file) \<and> diff_FileType d = FileType_FILE) \<and>
         (\<forall>q \<in> set (getPrefixes (fixPath (pf_Path file))).
            dirAt (diffTable s') (commit_ID commit) q) \<and>
         (\<forall>path cs. path = CHR ''/'' # cs \<and> (\<forall>q \<in> set (butlast (splitSlash cs)). q \<noteq> [])
            \<longrightarrow> getPrefixes path = ancestorPaths path)"
  using PutFile_invariant [OF assms] getPrefixes_ancestorPaths by blast

theorem PutFile_dirs_covered_witness:
  "keyed (diffTable store0) \<and>
   dirsCovered getPrefixes (diffTable store0) ''c1'' \<and>
   (\<exists>s'. PutFile noSharding store0 (fileAt ''c1'' ''/d//e/f'') (Inr refs9) nowFrom10 = (None, s') \<and>
         dirsCovered getPrefixes (diffTable s') ''c1'' \<and>
         keyed (diffTable s') \<and>
         dirAt (diffTable s') ''c1'' ''/d'' \<and>
         dirAt (diffTable s') ''c1'' ''/d/e'') \<and>
   getPrefixes ''/d/e/f'' = ancestorPaths ''/d/e/f''"
proof -
  have r: "getCommitByAmbiguousID store0 (pc_Repo (pf_Commit (fileAt ''c1'' ''/d//e/f'')))
             (pc_ID (pf_Commit (fileAt ''c1'' ''/d//e/f''))) = Inr commitB"
    by (simp add: fileAt_def store0_resolve_c1)
  have k: "keyed (diffTable store0)"
    by code_simp
  have i: "dirsCovered getPrefixes (diffTable store0) ''c1''"
    by code_simp
  have cid: "commit_ID commitB = ''c1''"
    by (simp add: commitB_def)
  have c: "CHR '':'' \<notin> set (commit_ID commitB)"
    by code_simp
  have g: "getPrefixes (fixPath (pf_Path (fileAt ''c1'' ''/d//e/f''))) = [''/d'', ''/d/e'']"
    by code_simp
  have e: "\<forall>q \<in> set (butlast (splitSlash ''d/e/f'')). q \<noteq> []"
    by code_simp
  have "fst (PutFile noSharding store0 (fileAt ''c1'' ''/d//e/f'') (Inr refs9) nowFrom10) = None"
    by code_simp
  then obtain s' where p:
    "PutFile noSharding store0 (fileAt ''c1'' ''/d//e/f'') (Inr refs9) nowFrom10 = (None, s')"
    by (cases "PutFile noSharding store0 (fileAt ''c1'' ''/d//e/f'') (Inr refs9) nowFrom10") simp
  note th = PutFile_dirs_covered [OF r p k c, unfolded cid g, OF i]
  have a: "dirsCovered getPrefixes (diffTable s') ''c1''" "keyed (diffTable s')"
    "dirAt (diffTable s') ''c1'' ''/d''" "dirAt (diffTable s') ''c1'' ''/d/e''"
    using th by simp_all
  have "getPrefixes (CHR ''/'' # ''d/e/f'') = ancestorPaths (CHR ''/'' # ''d/e/f'')"
    using th e by blast
  then have b: "getPrefixes ''/d/e/f'' = ancestorPaths ''/d/e/f''"
    by simp
  show ?thesis
    using k i p a b by blast
qed

end
